theory Spec2Isabelle
  imports Main "HOL-Library.Word" "HOL-Library.While_Combinator"
begin

unbundle bit_operations_syntax

section \<open>The task queue of the background indexer\<close>

text \<open>
  \<^verbatim>\<open>llvm::ThreadPriority\<close> has two values. \<^verbatim>\<open>Default\<close> is the priority the
  specification calls Normal.
\<close>

datatype ThreadPriority = Background | Default

text \<open>
  The members of \<^verbatim>\<open>BackgroundIndex\<close> that \<^verbatim>\<open>QueueMu\<close> guards. A task is an opaque
  closure, so its type is a parameter.
\<close>

record 'task QueueState =
  Queue :: "('task \<times> ThreadPriority) list"
  ShouldStop :: bool
  NumActiveTasks :: nat

definition initial_queue :: "'task QueueState" where
  "initial_queue = \<lparr>Queue = [], ShouldStop = False, NumActiveTasks = 0\<rparr>"

text \<open>
  \<^verbatim>\<open>llvm::find_if\<close> as the position of the iterator it returns: the index of the first
  element that satisfies the predicate, or the length of the list for \<^verbatim>\<open>end()\<close>.
\<close>

definition find_if :: "('a \<Rightarrow> bool) \<Rightarrow> 'a list \<Rightarrow> nat" where
  "find_if P xs = length (takeWhile (\<lambda>x. \<not> P x) xs)"

text \<open>\<^verbatim>\<open>Queue.insert(I, x)\<close> for a deque: \<^verbatim>\<open>x\<close> is placed before position \<^verbatim>\<open>I\<close>.\<close>

definition insert_at :: "nat \<Rightarrow> 'a \<Rightarrow> 'a list \<Rightarrow> 'a list" where
  "insert_at I x xs = take I xs @ [x] @ drop I xs"

definition enqueueTask ::
  "'task \<Rightarrow> ThreadPriority \<Rightarrow> 'task QueueState \<Rightarrow> 'task QueueState" where
  "enqueueTask T Priority s =
     (let I = (if Priority = Default
               then find_if (\<lambda>Elem. snd Elem = Background) (Queue s)
               else length (Queue s))
      in s\<lparr>Queue := insert_at I (T, Priority) (Queue s)\<rparr>)"

text \<open>
  One pass of a worker through the locked block at the head of \<^verbatim>\<open>run\<close>. The wait on the
  condition variable returns only when \<^verbatim>\<open>ShouldStop\<close> is set or the queue is not empty;
  otherwise the worker stays blocked and the state is unchanged.
\<close>

datatype 'task Dispatch = Blocked | Exited | Dispatched 'task ThreadPriority

definition run_dequeue :: "'task QueueState \<Rightarrow> 'task Dispatch \<times> 'task QueueState" where
  "run_dequeue s =
     (if ShouldStop s then (Exited, s\<lparr>Queue := []\<rparr>)
      else (case Queue s of
              [] \<Rightarrow> (Blocked, s)
            | Front # Rest \<Rightarrow>
                (Dispatched (fst Front) (snd Front),
                 s\<lparr>NumActiveTasks := Suc (NumActiveTasks s), Queue := Rest\<rparr>)))"

text \<open>The locked block at the foot of \<^verbatim>\<open>run\<close>, after the task has returned.\<close>

definition run_finish :: "'task QueueState \<Rightarrow> 'task QueueState" where
  "run_finish s = s\<lparr>NumActiveTasks := NumActiveTasks s - 1\<rparr>"

definition stop :: "'task QueueState \<Rightarrow> 'task QueueState" where
  "stop s = s\<lparr>ShouldStop := True\<rparr>"

text \<open>
  Every access to the queue happens under \<^verbatim>\<open>QueueMu\<close>, so a run of the indexer is a
  sequence of these atomic events, whatever the number of workers.
\<close>

datatype 'task QueueEvent =
    EnqueueTask 'task ThreadPriority
  | WorkerDequeue
  | WorkerFinish
  | Stop

fun queue_event :: "'task QueueEvent \<Rightarrow> 'task QueueState \<Rightarrow> 'task QueueState" where
  "queue_event (EnqueueTask T Priority) s = enqueueTask T Priority s"
| "queue_event WorkerDequeue s = snd (run_dequeue s)"
| "queue_event WorkerFinish s = run_finish s"
| "queue_event Stop s = stop s"

definition queue_after :: "'task QueueEvent list \<Rightarrow> 'task QueueState" where
  "queue_after evs = fold queue_event evs initial_queue"

text \<open>No Background entry stands before a Default one.\<close>

definition normal_first :: "('task \<times> ThreadPriority) list \<Rightarrow> bool" where
  "normal_first q = sorted_wrt (\<lambda>a b. \<not> (snd a = Background \<and> snd b = Default)) q"

section \<open>Data model\<close>

text \<open>
  Modelled from the spec: \<^verbatim>\<open>FileDigest\<close> is declared in \<^verbatim>\<open>SourceCode.h\<close>, which is not
  among the sources. It is a fixed-size byte array that is only ever compared; twenty
  bytes are taken, and the all-zero array is the value \<^verbatim>\<open>FileDigest{{0}}\<close>.
\<close>

type_synonym FileDigest = "8 word list"

definition zero_digest :: FileDigest where
  "zero_digest = replicate 20 0"

text \<open>
  Modelled from the spec: \<^verbatim>\<open>ShardVersion\<close> is declared in \<^verbatim>\<open>Background.h\<close>, which is
  not among the sources: a digest and a had-errors flag, default-constructed with the zero
  digest and no errors.
\<close>

record ShardVersion =
  SV_Digest :: FileDigest
  SV_HadErrors :: bool

definition default_ShardVersion :: ShardVersion where
  "default_ShardVersion = \<lparr>SV_Digest = zero_digest, SV_HadErrors = False\<rparr>"

text \<open>\<^verbatim>\<open>IncludeGraphNode::SourceFlag\<close>, an enumeration over \<^verbatim>\<open>uint8_t\<close>, with its operators.\<close>

type_synonym SourceFlag = "8 word"

definition SourceFlag_None :: SourceFlag where
  "SourceFlag_None = 0"

definition SourceFlag_IsTU :: SourceFlag where
  "SourceFlag_IsTU = push_bit 0 1"

definition SourceFlag_HadErrors :: SourceFlag where
  "SourceFlag_HadErrors = push_bit 1 1"

definition flag_or :: "SourceFlag \<Rightarrow> SourceFlag \<Rightarrow> SourceFlag" where
  "flag_or A B = A OR B"

definition flag_and :: "SourceFlag \<Rightarrow> SourceFlag \<Rightarrow> bool" where
  "flag_and A B = (A AND B \<noteq> 0)"

record IncludeGraphNode =
  Flags :: SourceFlag
  URI :: string
  IGN_Digest :: FileDigest
  DirectIncludes :: "string list"

definition default_IncludeGraphNode :: IncludeGraphNode where
  "default_IncludeGraphNode =
     \<lparr>Flags = SourceFlag_None, URI = [], IGN_Digest = zero_digest, DirectIncludes = []\<rparr>"

text \<open>
  An \<^verbatim>\<open>llvm::StringMap\<close> that the code iterates is an association list in the order of
  the iteration (which for a hash map is arbitrary but fixed). \<^verbatim>\<open>try_emplace\<close> adds a
  default value under a key that is absent and changes nothing otherwise; \<^verbatim>\<open>modify\<close>
  writes through the reference \<^verbatim>\<open>try_emplace\<close> or \<^verbatim>\<open>find\<close> returned.
\<close>

type_synonym IncludeGraph = "(string \<times> IncludeGraphNode) list"

definition try_emplace :: "'k \<Rightarrow> 'v \<Rightarrow> ('k \<times> 'v) list \<Rightarrow> ('k \<times> 'v) list" where
  "try_emplace k d m = (if map_of m k = None then m @ [(k, d)] else m)"

definition modify :: "'k \<Rightarrow> ('v \<Rightarrow> 'v) \<Rightarrow> ('k \<times> 'v) list \<Rightarrow> ('k \<times> 'v) list" where
  "modify k f m = map (\<lambda>kv. if fst kv = k then (fst kv, f (snd kv)) else kv) m"

text \<open>
  Modelled from the spec: the symbol, reference and relation records are declared in
  headers that are not among the sources. The core reads a symbol's id and the file URIs
  of its canonical declaration and of its definition (either may be absent), a
  reference's file URI and a relation's subject.
\<close>

type_synonym SymbolID = nat

record Symbol =
  ID :: SymbolID
  CanonicalDeclaration :: "string option"
  Definition :: "string option"

record Ref =
  Location :: string
  Kind :: nat

record Relation =
  Subject :: SymbolID
  Predicate :: nat
  Object :: SymbolID

type_synonym SymbolSlab = "Symbol list"
type_synonym RefSlab = "(SymbolID \<times> Ref list) list"
type_synonym RelationSlab = "Relation list"

text \<open>\<^verbatim>\<open>RefSlab::Builder::insert\<close>: the reference joins the references of its symbol.\<close>

definition RefSlab_insert :: "SymbolID \<Rightarrow> Ref \<Rightarrow> RefSlab \<Rightarrow> RefSlab" where
  "RefSlab_insert I R Slab = modify I (\<lambda>Rs. Rs @ [R]) (try_emplace I [] Slab)"

record CompileCommand =
  Directory :: string
  Filename :: string
  CommandLine :: "string list"

text \<open>
  The result of indexing one translation unit, as \<^verbatim>\<open>update\<close> reads it. \<^verbatim>\<open>update\<close>
  dereferences \<^verbatim>\<open>Index.Sources\<close>, \<^verbatim>\<open>Index.Symbols\<close>, \<^verbatim>\<open>Index.Refs\<close>,
  \<^verbatim>\<open>Index.Relations\<close> and \<^verbatim>\<open>Index.Cmd\<close> without a test: its only caller, \<^verbatim>\<open>index\<close>,
  has them set by the callbacks of the indexing action, so the record holds the values.
\<close>

record TUResult =
  Symbols :: SymbolSlab
  Refs :: RefSlab
  Relations :: RelationSlab
  Sources :: IncludeGraph
  Cmd :: CompileCommand

text \<open>A shard as \<^verbatim>\<open>storeShard\<close> receives it: every member is a pointer that may be null.\<close>

record IndexFileOut =
  Out_Symbols :: "SymbolSlab option"
  Out_Refs :: "RefSlab option"
  Out_Relations :: "RelationSlab option"
  Out_Sources :: "IncludeGraph option"
  Out_Cmd :: "CompileCommand option"

text \<open>A shard as \<^verbatim>\<open>loadShard\<close> of the storage returns it: every member is optional.\<close>

record IndexFileIn =
  In_Symbols :: "SymbolSlab option"
  In_Refs :: "RefSlab option"
  In_Relations :: "RelationSlab option"
  In_Sources :: "IncludeGraph option"
  In_Cmd :: "CompileCommand option"

text \<open>
  Modelled from the spec: \<^verbatim>\<open>FileSymbols\<close> (the member \<^verbatim>\<open>IndexedSymbols\<close>) is defined
  outside the sources. It holds, per path, the most recent slabs and the flag that says
  whether the path's references count; \<^verbatim>\<open>update\<close> replaces the entry of the path, and
  \<^verbatim>\<open>buildIndex\<close> snapshots all entries into an index of the requested kind.
\<close>

record FileSymbolsEntry =
  FS_Symbols :: "SymbolSlab option"
  FS_Refs :: "RefSlab option"
  FS_Relations :: "RelationSlab option"
  FS_CountReferences :: bool

type_synonym FileSymbols = "string \<rightharpoonup> FileSymbolsEntry"

definition FileSymbols_update ::
  "string \<Rightarrow> SymbolSlab option \<Rightarrow> RefSlab option \<Rightarrow> RelationSlab option \<Rightarrow> bool \<Rightarrow>
   FileSymbols \<Rightarrow> FileSymbols" where
  "FileSymbols_update Path SS RS RelS CountReferences FS =
     FS(Path \<mapsto> \<lparr>FS_Symbols = SS, FS_Refs = RS, FS_Relations = RelS,
                  FS_CountReferences = CountReferences\<rparr>)"

datatype IndexType = Light | Heavy

record SymbolIndex =
  Index_Type :: IndexType
  Index_Entries :: FileSymbols

definition buildIndex :: "IndexType \<Rightarrow> FileSymbols \<Rightarrow> SymbolIndex" where
  "buildIndex T FS = \<lparr>Index_Type = T, Index_Entries = FS\<rparr>"

text \<open>
  The members of \<^verbatim>\<open>BackgroundIndex\<close> that indexing and loading change: the shard-version
  table and the indexed symbols (both written under \<^verbatim>\<open>ShardVersionsMu\<close>), the flag for
  the periodic rebuilder, and the index that \<^verbatim>\<open>reset\<close> published last.
\<close>

record IndexState =
  ShardVersions :: "string \<rightharpoonup> ShardVersion"
  IndexedSymbols :: FileSymbols
  SymbolsUpdatedSinceLastIndex :: bool
  Published :: "SymbolIndex option"

text \<open>
  The collaborators that are defined outside the sources, taken as parameters: URI
  parsing, resolution against a hint path and creation from a path, the digest of a
  buffer, the file system, the path functions of \<^verbatim>\<open>llvm::sys::path\<close>, and the rebuild
  period the index was constructed with. A parsed URI is kept as a string.
\<close>

record Env =
  URI_parse :: "string \<Rightarrow> string option"
  URI_resolve :: "string \<Rightarrow> string \<Rightarrow> string option"
  URI_create :: "string \<Rightarrow> string"
  digest :: "string \<Rightarrow> FileDigest"
  getBufferForFile :: "string \<Rightarrow> string option"
  is_absolute :: "string \<Rightarrow> bool"
  path_append :: "string \<Rightarrow> string \<Rightarrow> string"
  remove_dots :: "string \<Rightarrow> string"
  BuildIndexPeriodMs :: nat

section \<open>\<^verbatim>\<open>URIToFileCache\<close>, \<^verbatim>\<open>getSubGraph\<close> and \<^verbatim>\<open>getAbsolutePath\<close>\<close>

text \<open>
  \<^verbatim>\<open>URIToFileCache::resolve\<close> with the cache passed as state. The assertions of the
  source are taken as compiled out, the way its \<^verbatim>\<open>return ""\<close> after
  \<^verbatim>\<open>assert(false)\<close> provides for: a URI that does not parse or resolve yields the
  empty path, which \<^verbatim>\<open>try_emplace\<close> has already put into the cache.
\<close>

definition resolve ::
  "Env \<Rightarrow> string \<Rightarrow> (string \<rightharpoonup> string) \<Rightarrow> string \<Rightarrow> string \<times> (string \<rightharpoonup> string)" where
  "resolve E HintPath URIToPathCache FileURI =
     (case URIToPathCache FileURI of
        Some Cached \<Rightarrow> (Cached, URIToPathCache)
      | None \<Rightarrow>
          (case URI_parse E FileURI of
             None \<Rightarrow> ([], URIToPathCache(FileURI \<mapsto> []))
           | Some U \<Rightarrow>
               (case URI_resolve E U HintPath of
                  None \<Rightarrow> ([], URIToPathCache(FileURI \<mapsto> []))
                | Some Path \<Rightarrow> (Path, URIToPathCache(FileURI \<mapsto> Path)))))"

text \<open>What \<^verbatim>\<open>resolve\<close> answers for a URI that is not cached yet.\<close>

definition resolve_path :: "Env \<Rightarrow> string \<Rightarrow> string \<Rightarrow> string" where
  "resolve_path E HintPath FileURI =
     (case URI_parse E FileURI of
        None \<Rightarrow> []
      | Some U \<Rightarrow> (case URI_resolve E U HintPath of None \<Rightarrow> [] | Some Path \<Rightarrow> Path))"

text \<open>
  \<^verbatim>\<open>getSubGraph\<close>, called with the string of the URI: the node of the file with its
  edges, and an otherwise empty node for every file it includes.
\<close>

definition getSubGraph :: "string \<Rightarrow> IncludeGraph \<Rightarrow> IncludeGraph" where
  "getSubGraph FileURI FullGraph =
     (let Node = (case map_of FullGraph FileURI of
                    None \<Rightarrow> default_IncludeGraphNode
                  | Some N \<Rightarrow> N)\<lparr>URI := FileURI\<rparr>
      in fold (\<lambda>Include IG.
                 modify Include (\<lambda>N. N\<lparr>URI := Include\<rparr>)
                   (try_emplace Include default_IncludeGraphNode IG))
           (DirectIncludes Node) [(FileURI, Node)])"

definition getAbsolutePath :: "Env \<Rightarrow> CompileCommand \<Rightarrow> string" where
  "getAbsolutePath E C =
     (if is_absolute E (Filename C) then Filename C
      else remove_dots E (path_append E (Directory C) (Filename C)))"

section \<open>\<^verbatim>\<open>BackgroundIndex::update\<close>\<close>

text \<open>
  The local \<^verbatim>\<open>struct File\<close>. A set of pointers into a slab is the list of the records
  pointed to, without repetition; a pointer to a reference is kept with the symbol id
  that \<^verbatim>\<open>RefToIDs\<close> maps it to.
\<close>

record File =
  File_Symbols :: "Symbol list"
  File_Refs :: "(SymbolID \<times> Ref) list"
  File_Relations :: "Relation list"
  File_Digest :: FileDigest

definition default_File :: File where
  "default_File =
     \<lparr>File_Symbols = [], File_Refs = [], File_Relations = [], File_Digest = zero_digest\<rparr>"

text \<open>The condition under which the first loop of \<^verbatim>\<open>update\<close> takes a file.\<close>

definition needs_rewrite ::
  "(string \<rightharpoonup> ShardVersion) \<Rightarrow> bool \<Rightarrow> string \<Rightarrow> FileDigest \<Rightarrow> bool" where
  "needs_rewrite ShardVersionsSnapshot HadErrors AbsPath D =
     (case ShardVersionsSnapshot AbsPath of
        None \<Rightarrow> True
      | Some DigestIt \<Rightarrow> SV_Digest DigestIt \<noteq> D \<or> (SV_HadErrors DigestIt \<and> \<not> HadErrors))"

text \<open>The body of the loop over \<^verbatim>\<open>*Index.Sources\<close>.\<close>

definition collect_file ::
  "Env \<Rightarrow> string \<Rightarrow> (string \<rightharpoonup> ShardVersion) \<Rightarrow> bool \<Rightarrow> string \<times> IncludeGraphNode \<Rightarrow>
   (string \<times> File) list \<times> (string \<rightharpoonup> string) \<Rightarrow>
   (string \<times> File) list \<times> (string \<rightharpoonup> string)" where
  "collect_file E MainFile ShardVersionsSnapshot HadErrors IndexIt acc =
     (let IGN = snd IndexIt;
          R = resolve E MainFile (snd acc) (URI IGN);
          AbsPath = fst R
      in if needs_rewrite ShardVersionsSnapshot HadErrors AbsPath (IGN_Digest IGN)
         then (modify AbsPath (\<lambda>F. F\<lparr>File_Digest := IGN_Digest IGN\<rparr>)
                 (try_emplace AbsPath default_File (fst acc)), snd R)
         else (fst acc, snd R))"

definition collect_files ::
  "Env \<Rightarrow> string \<Rightarrow> (string \<rightharpoonup> ShardVersion) \<Rightarrow> bool \<Rightarrow> IncludeGraph \<Rightarrow>
   (string \<times> File) list \<times> (string \<rightharpoonup> string)" where
  "collect_files E MainFile ShardVersionsSnapshot HadErrors Srcs =
     fold (collect_file E MainFile ShardVersionsSnapshot HadErrors) Srcs ([], Map.empty)"

text \<open>The files to rewrite, each with the digest recorded for it.\<close>

definition files_to_rewrite ::
  "Env \<Rightarrow> string \<Rightarrow> (string \<rightharpoonup> ShardVersion) \<Rightarrow> bool \<Rightarrow> IncludeGraph \<Rightarrow>
   (string \<times> File) list" where
  "files_to_rewrite E MainFile ShardVersionsSnapshot HadErrors Srcs =
     fst (collect_files E MainFile ShardVersionsSnapshot HadErrors Srcs)"

text \<open>
  The body of the loop over \<^verbatim>\<open>*Index.Symbols\<close>; the state is \<^verbatim>\<open>Files\<close>,
  \<^verbatim>\<open>SymbolIDToFile\<close> (a file is named by its key in \<^verbatim>\<open>Files\<close>) and the URI cache.
\<close>

definition partition_symbol ::
  "Env \<Rightarrow> string \<Rightarrow> Symbol \<Rightarrow>
   (string \<times> File) list \<times> (SymbolID \<rightharpoonup> string) \<times> (string \<rightharpoonup> string) \<Rightarrow>
   (string \<times> File) list \<times> (SymbolID \<rightharpoonup> string) \<times> (string \<rightharpoonup> string)" where
  "partition_symbol E MainFile Sym acc =
     (let Files = fst acc; SymbolIDToFile = fst (snd acc); Cache = snd (snd acc);
          acc1 =
            (case CanonicalDeclaration Sym of
               None \<Rightarrow> (Files, SymbolIDToFile, Cache)
             | Some DeclURI \<Rightarrow>
                 (let R = resolve E MainFile Cache DeclURI; DeclPath = fst R
                  in if map_of Files DeclPath \<noteq> None
                     then (modify DeclPath
                             (\<lambda>F. F\<lparr>File_Symbols := List.insert Sym (File_Symbols F)\<rparr>) Files,
                           SymbolIDToFile(ID Sym \<mapsto> DeclPath), snd R)
                     else (Files, SymbolIDToFile, snd R)))
      in (case Definition Sym of
            None \<Rightarrow> acc1
          | Some DefURI \<Rightarrow>
              if Definition Sym \<noteq> CanonicalDeclaration Sym
              then (let R = resolve E MainFile (snd (snd acc1)) DefURI; DefPath = fst R
                    in if map_of (fst acc1) DefPath \<noteq> None
                       then (modify DefPath
                               (\<lambda>F. F\<lparr>File_Symbols := List.insert Sym (File_Symbols F)\<rparr>)
                               (fst acc1),
                             fst (snd acc1), snd R)
                       else (fst acc1, fst (snd acc1), snd R))
              else acc1))"

text \<open>The body of the inner loop over the references of one symbol.\<close>

definition partition_ref ::
  "Env \<Rightarrow> string \<Rightarrow> SymbolID \<Rightarrow> Ref \<Rightarrow>
   (string \<times> File) list \<times> (string \<rightharpoonup> string) \<Rightarrow>
   (string \<times> File) list \<times> (string \<rightharpoonup> string)" where
  "partition_ref E MainFile SymID R acc =
     (let Res = resolve E MainFile (snd acc) (Location R); Path = fst Res
      in if map_of (fst acc) Path \<noteq> None
         then (modify Path (\<lambda>F. F\<lparr>File_Refs := File_Refs F @ [(SymID, R)]\<rparr>) (fst acc),
               snd Res)
         else (fst acc, snd Res))"

definition partition_refs ::
  "Env \<Rightarrow> string \<Rightarrow> SymbolID \<times> Ref list \<Rightarrow>
   (string \<times> File) list \<times> (string \<rightharpoonup> string) \<Rightarrow>
   (string \<times> File) list \<times> (string \<rightharpoonup> string)" where
  "partition_refs E MainFile SymRefs acc =
     fold (partition_ref E MainFile (fst SymRefs)) (snd SymRefs) acc"

text \<open>The body of the loop over \<^verbatim>\<open>*Index.Relations\<close>.\<close>

definition partition_relation ::
  "(SymbolID \<rightharpoonup> string) \<Rightarrow> Relation \<Rightarrow> (string \<times> File) list \<Rightarrow> (string \<times> File) list" where
  "partition_relation SymbolIDToFile Rel Files =
     (case SymbolIDToFile (Subject Rel) of
        None \<Rightarrow> Files
      | Some FileIt \<Rightarrow>
          modify FileIt (\<lambda>F. F\<lparr>File_Relations := File_Relations F @ [Rel]\<rparr>) Files)"

text \<open>\<^verbatim>\<open>Files\<close> as it stands when the loop that stores and commits begins.\<close>

definition partition_files ::
  "Env \<Rightarrow> string \<Rightarrow> TUResult \<Rightarrow> (string \<rightharpoonup> ShardVersion) \<Rightarrow> bool \<Rightarrow>
   (string \<times> File) list" where
  "partition_files E MainFile Index ShardVersionsSnapshot HadErrors =
     (let A1 = collect_files E MainFile ShardVersionsSnapshot HadErrors (Sources Index);
          A2 = fold (partition_symbol E MainFile) (Symbols Index)
                 (fst A1, Map.empty, snd A1);
          A3 = fold (partition_refs E MainFile) (Refs Index) (fst A2, snd (snd A2))
      in fold (partition_relation (fst (snd A2))) (Relations Index) (fst A3))"

text \<open>
  The block under \<^verbatim>\<open>ShardVersionsMu\<close> that ends an iteration of the last loop:
  \<^verbatim>\<open>try_emplace\<close> on the table, the test that skips the file, and otherwise the new
  version and the call of \<^verbatim>\<open>IndexedSymbols.update\<close>. The code of the test is
  \<^verbatim>\<open>!DigestIt.second && SV.Digest == Hash && SV.HadErrors && !HadErrors\<close>.
\<close>

definition commit_skips :: "(string \<rightharpoonup> ShardVersion) \<Rightarrow> string \<Rightarrow> FileDigest \<Rightarrow> bool \<Rightarrow> bool" where
  "commit_skips Versions Path Hash HadErrors =
     (let Inserted = (Versions Path = None);
          SV = (case Versions Path of None \<Rightarrow> default_ShardVersion | Some V \<Rightarrow> V)
      in \<not> Inserted \<and> SV_Digest SV = Hash \<and> SV_HadErrors SV \<and> \<not> HadErrors)"

definition commit_shard ::
  "string \<Rightarrow> string \<Rightarrow> FileDigest \<Rightarrow> bool \<Rightarrow> SymbolSlab \<Rightarrow> RefSlab \<Rightarrow> RelationSlab \<Rightarrow>
   IndexState \<Rightarrow> IndexState" where
  "commit_shard MainFile Path Hash HadErrors SS RS RelS st =
     (if commit_skips (ShardVersions st) Path Hash HadErrors then st
      else st\<lparr>ShardVersions :=
                (ShardVersions st)(Path \<mapsto> \<lparr>SV_Digest = Hash, SV_HadErrors = HadErrors\<rparr>),
              IndexedSymbols :=
                FileSymbols_update Path (Some SS) (Some RS) (Some RelS) (Path = MainFile)
                  (IndexedSymbols st)\<rparr>)"

text \<open>
  What an \<^verbatim>\<open>update\<close> does beyond the index state: the shards it hands to
  \<^verbatim>\<open>storeShard\<close>, in order, and the failures it logs. The storage is a null pointer
  (\<open>None\<close>) or a function that answers a path and a shard with the error of the write,
  if any.
\<close>

record UpdateEffects =
  Stored :: "(string \<times> IndexFileOut) list"
  Logged :: "(string \<times> string) list"

type_synonym ShardWriter = "(string \<Rightarrow> IndexFileOut \<Rightarrow> string option) option"

definition store_shard ::
  "string \<Rightarrow> TUResult \<Rightarrow> ShardWriter \<Rightarrow> string \<Rightarrow> SymbolSlab \<Rightarrow> RefSlab \<Rightarrow> RelationSlab \<Rightarrow>
   IncludeGraph \<Rightarrow> UpdateEffects \<Rightarrow> UpdateEffects" where
  "store_shard MainFile Index IndexStorage Path SS RS RelS IG eff =
     (case IndexStorage of
        None \<Rightarrow> eff
      | Some storeShard \<Rightarrow>
          (let Shard = \<lparr>Out_Symbols = Some SS, Out_Refs = Some RS, Out_Relations = Some RelS,
                        Out_Sources = Some IG,
                        Out_Cmd = (if Path = MainFile then Some (Cmd Index) else None)\<rparr>
           in (case storeShard Path Shard of
                 None \<Rightarrow> eff\<lparr>Stored := Stored eff @ [(Path, Shard)]\<rparr>
               | Some Error \<Rightarrow>
                   eff\<lparr>Stored := Stored eff @ [(Path, Shard)],
                       Logged := Logged eff @ [(Path, Error)]\<rparr>)))"

text \<open>The body of the loop over \<^verbatim>\<open>Files\<close>.\<close>

definition store_and_commit ::
  "Env \<Rightarrow> string \<Rightarrow> TUResult \<Rightarrow> ShardWriter \<Rightarrow> bool \<Rightarrow> string \<times> File \<Rightarrow>
   IndexState \<times> UpdateEffects \<Rightarrow> IndexState \<times> UpdateEffects" where
  "store_and_commit E MainFile Index IndexStorage HadErrors FileIt acc =
     (let Path = fst FileIt;
          SS = File_Symbols (snd FileIt);
          RS = fold (\<lambda>R Slab. RefSlab_insert (fst R) (snd R) Slab) (File_Refs (snd FileIt)) [];
          RelS = File_Relations (snd FileIt);
          IG = getSubGraph (URI_create E Path) (Sources Index)
      in (commit_shard MainFile Path (File_Digest (snd FileIt)) HadErrors SS RS RelS (fst acc),
          store_shard MainFile Index IndexStorage Path SS RS RelS IG (snd acc)))"

definition update ::
  "Env \<Rightarrow> string \<Rightarrow> TUResult \<Rightarrow> (string \<rightharpoonup> ShardVersion) \<Rightarrow> ShardWriter \<Rightarrow> bool \<Rightarrow>
   IndexState \<Rightarrow> IndexState \<times> UpdateEffects" where
  "update E MainFile Index ShardVersionsSnapshot IndexStorage HadErrors st =
     fold (store_and_commit E MainFile Index IndexStorage HadErrors)
       (partition_files E MainFile Index ShardVersionsSnapshot HadErrors)
       (st, \<lparr>Stored = [], Logged = []\<rparr>)"

section \<open>\<^verbatim>\<open>BackgroundIndex::index\<close>\<close>

text \<open>
  What the file filter asks of clang's \<^verbatim>\<open>SourceManager\<close>: the file entry of a file id,
  and the two helpers \<^verbatim>\<open>getCanonicalPath\<close> and \<^verbatim>\<open>digestFile\<close> (defined outside the
  sources), each of which may fail.
\<close>

type_synonym FileID = nat
type_synonym FileEntry = nat

record SourceManager =
  getFileEntryForID :: "FileID \<Rightarrow> FileEntry option"
  getCanonicalPath :: "FileEntry \<Rightarrow> string option"
  digestFile :: "FileID \<Rightarrow> FileDigest option"

text \<open>The lambda \<^verbatim>\<open>IndexOpts.FileFilter\<close>; it captures the snapshot of the versions.\<close>

definition FileFilter :: "(string \<rightharpoonup> ShardVersion) \<Rightarrow> SourceManager \<Rightarrow> FileID \<Rightarrow> bool" where
  "FileFilter ShardVersionsSnapshot SM FID =
     (case getFileEntryForID SM FID of
        None \<Rightarrow> False
      | Some F \<Rightarrow>
          (case getCanonicalPath SM F of
             None \<Rightarrow> False
           | Some AbsPath \<Rightarrow>
               (case digestFile SM FID of
                  None \<Rightarrow> False
                | Some D \<Rightarrow>
                    (case ShardVersionsSnapshot AbsPath of
                       None \<Rightarrow> True
                     | Some V \<Rightarrow>
                         if SV_Digest V = D \<and> \<not> SV_HadErrors V then False else True))))"

text \<open>
  The front end is outside the sources. Given the compile command and the file filter it
  fails at one of four places or delivers, through the callbacks of the indexing action,
  the slabs and the include graph, together with what the diagnostics engine of the
  compiler instance reports.
\<close>

record ParsedTU =
  Parsed_Symbols :: SymbolSlab
  Parsed_Refs :: RefSlab
  Parsed_Relations :: RelationSlab
  Parsed_Sources :: IncludeGraph
  hasDiagnostics :: bool
  hasUncompilableErrorOccurred :: bool

datatype Frontend =
    NoCompilerInvocation
  | NoCompilerInstance
  | BeginSourceFileFailed
  | ExecuteFailed string
  | Executed ParsedTU

datatype IndexError =
    ReadError
  | InvocationError
  | InstanceError
  | BeginSourceFileError
  | ExecuteError string

text \<open>The flag \<^verbatim>\<open>HadErrors\<close> that \<^verbatim>\<open>index\<close> computes after the action has run.\<close>

definition index_HadErrors :: "ParsedTU \<Rightarrow> bool" where
  "index_HadErrors P = (hasDiagnostics P \<and> hasUncompilableErrorOccurred P)"

text \<open>The loop \<^verbatim>\<open>It.second.Flags |= HadErrors\<close> over the include graph.\<close>

definition mark_HadErrors :: "IncludeGraph \<Rightarrow> IncludeGraph" where
  "mark_HadErrors G =
     map (\<lambda>It. (fst It, (snd It)\<lparr>Flags := flag_or (Flags (snd It)) SourceFlag_HadErrors\<rparr>)) G"

text \<open>The \<^verbatim>\<open>IndexFileIn\<close> that \<^verbatim>\<open>index\<close> hands to \<^verbatim>\<open>update\<close>.\<close>

definition index_result :: "CompileCommand \<Rightarrow> ParsedTU \<Rightarrow> TUResult" where
  "index_result C P =
     \<lparr>Symbols = Parsed_Symbols P, Refs = Parsed_Refs P, Relations = Parsed_Relations P,
      Sources = (if index_HadErrors P then mark_HadErrors (Parsed_Sources P)
                 else Parsed_Sources P),
      Cmd = C\<rparr>"

text \<open>
  \<^verbatim>\<open>index\<close>. The digest of the main file is computed for a log line only and is left
  out. The snapshot is the table as it stands when the lock is taken.
\<close>

definition index ::
  "Env \<Rightarrow> (CompileCommand \<Rightarrow> (SourceManager \<Rightarrow> FileID \<Rightarrow> bool) \<Rightarrow> Frontend) \<Rightarrow>
   CompileCommand \<Rightarrow> ShardWriter \<Rightarrow> IndexState \<Rightarrow> IndexError + IndexState \<times> UpdateEffects" where
  "index E Parser C IndexStorage st =
     (let AbsolutePath = getAbsolutePath E C
      in (case getBufferForFile E AbsolutePath of
            None \<Rightarrow> Inl ReadError
          | Some Buf \<Rightarrow>
              (let ShardVersionsSnapshot = ShardVersions st
               in (case Parser C (FileFilter ShardVersionsSnapshot) of
                     NoCompilerInvocation \<Rightarrow> Inl InvocationError
                   | NoCompilerInstance \<Rightarrow> Inl InstanceError
                   | BeginSourceFileFailed \<Rightarrow> Inl BeginSourceFileError
                   | ExecuteFailed Err \<Rightarrow> Inl (ExecuteError Err)
                   | Executed P \<Rightarrow>
                       (let U = update E AbsolutePath (index_result C P)
                                  ShardVersionsSnapshot IndexStorage (index_HadErrors P) st
                        in Inr (if BuildIndexPeriodMs E > 0
                                then (fst U)\<lparr>SymbolsUpdatedSinceLastIndex := True\<rparr>
                                else (fst U)\<lparr>Published :=
                                       Some (buildIndex Light (IndexedSymbols (fst U)))\<rparr>,
                                snd U))))))"

section \<open>\<^verbatim>\<open>BackgroundIndex::loadShard\<close>\<close>

text \<open>
  Modelled from the spec: \<^verbatim>\<open>BackgroundIndexStorage\<close> is an interface declared outside
  the sources; its \<^verbatim>\<open>loadShard\<close> returns the shard stored for a path, or null. A finite
  collection of stored shards is an association list from paths to shards.
\<close>

type_synonym ShardStore = "(string \<times> IndexFileIn) list"

definition IndexStorage_loadShard :: "ShardStore \<Rightarrow> string \<Rightarrow> IndexFileIn option" where
  "IndexStorage_loadShard Storage P = map_of Storage P"

text \<open>\<^verbatim>\<open>BackgroundIndex::Source\<close>: a path and whether it needs re-indexing.\<close>

record Source =
  Path :: string
  NeedsReIndexing :: bool

text \<open>The local \<^verbatim>\<open>struct ShardInfo\<close>; its \<^verbatim>\<open>unique_ptr\<close> may be null.\<close>

record ShardInfo =
  SI_AbsolutePath :: string
  SI_Shard :: "IndexFileIn option"
  SI_Digest :: FileDigest
  SI_CountReferences :: bool
  SI_HadErrors :: bool

text \<open>
  The variables of the walk; \<^verbatim>\<open>ToVisit\<close> is a queue whose front is the head of the list,
  \<^verbatim>\<open>LoadedShards\<close> is the set the caller passes by reference.
\<close>

record LoadState =
  IntermediateSymbols :: "ShardInfo list"
  InQueue :: "string set"
  Dependencies :: "Source list"
  ToVisit :: "Source list"
  LoadedShards :: "string set"

text \<open>
  An assignment to \<^verbatim>\<open>CurDependency.NeedsReIndexing\<close>, where \<^verbatim>\<open>CurDependency\<close> refers
  to \<^verbatim>\<open>Dependencies.back()\<close>.
\<close>

definition back_NeedsReIndexing :: "bool \<Rightarrow> Source list \<Rightarrow> Source list" where
  "back_NeedsReIndexing b Ds =
     (if Ds = [] then [] else butlast Ds @ [(last Ds)\<lparr>NeedsReIndexing := b\<rparr>])"

text \<open>The path an edge of a shard's include graph resolves to, relative to the shard's.\<close>

definition edge_path :: "Env \<Rightarrow> string \<Rightarrow> string \<Rightarrow> string option" where
  "edge_path E CurPath Key =
     (case URI_parse E Key of None \<Rightarrow> None | Some U \<Rightarrow> URI_resolve E U CurPath)"

text \<open>
  The body of the loop over \<^verbatim>\<open>*Shard->Sources\<close>. Its state is the local \<^verbatim>\<open>Shard\<close>, a
  \<^verbatim>\<open>unique_ptr\<close> that is null once it has been moved into a \<^verbatim>\<open>ShardInfo\<close>, and the
  variables of the walk. The assertion on the digest is taken as compiled out.
\<close>

definition visit_edge ::
  "Env \<Rightarrow> string \<Rightarrow> string \<times> IncludeGraphNode \<Rightarrow> IndexFileIn option \<times> LoadState \<Rightarrow>
   IndexFileIn option \<times> LoadState" where
  "visit_edge E CurPath I acc =
     (case edge_path E CurPath (fst I) of
        None \<Rightarrow> acc
      | Some AbsolutePath \<Rightarrow>
          (let st = snd acc;
               st1 = (if AbsolutePath \<notin> InQueue st
                      then st\<lparr>InQueue := insert AbsolutePath (InQueue st),
                              ToVisit := ToVisit st @
                                [\<lparr>Path = AbsolutePath, NeedsReIndexing = True\<rparr>]\<rparr>
                      else st)
           in if AbsolutePath \<noteq> CurPath then (fst acc, st1)
              else (let SI = \<lparr>SI_AbsolutePath = CurPath, SI_Shard = fst acc,
                               SI_Digest = IGN_Digest (snd I),
                               SI_CountReferences = flag_and (Flags (snd I)) SourceFlag_IsTU,
                               SI_HadErrors = flag_and (Flags (snd I)) SourceFlag_HadErrors\<rparr>;
                        st2 = st1\<lparr>IntermediateSymbols := IntermediateSymbols st1 @ [SI]\<rparr>
                    in (case getBufferForFile E CurPath of
                          None \<Rightarrow> (None, st2)
                        | Some Buf \<Rightarrow>
                            (None,
                             st2\<lparr>Dependencies :=
                                   back_NeedsReIndexing (digest E Buf \<noteq> IGN_Digest (snd I))
                                     (Dependencies st2)\<rparr>)))))"

text \<open>
  The body of the loop \<^verbatim>\<open>while (!ToVisit.empty())\<close>. On an empty queue, where the loop has
  ended, it is the identity.
\<close>

definition loadShard_body :: "Env \<Rightarrow> ShardStore \<Rightarrow> LoadState \<Rightarrow> LoadState" where
  "loadShard_body E Storage st =
     (case ToVisit st of
        [] \<Rightarrow> st
      | Front # Rest \<Rightarrow>
          (let st1 = st\<lparr>Dependencies := Dependencies st @ [Front], ToVisit := Rest\<rparr>
           in if Path Front \<in> LoadedShards st1
              then st1\<lparr>Dependencies := back_NeedsReIndexing False (Dependencies st1)\<rparr>
              else (let st2 = st1\<lparr>LoadedShards := insert (Path Front) (LoadedShards st1)\<rparr>
                    in (case IndexStorage_loadShard Storage (Path Front) of
                          None \<Rightarrow> st2
                        | Some Shard \<Rightarrow>
                            (case In_Sources Shard of
                               None \<Rightarrow> st2
                             | Some Srcs \<Rightarrow>
                                 snd (fold (visit_edge E (Path Front)) Srcs
                                        (Some Shard, st2)))))))"

text \<open>Every path that an edge of a stored shard resolves to.\<close>

definition edge_targets :: "Env \<Rightarrow> ShardStore \<Rightarrow> string list" where
  "edge_targets E Storage =
     concat (map (\<lambda>PS. case In_Sources (snd PS) of
                          None \<Rightarrow> []
                        | Some Srcs \<Rightarrow> List.map_filter (\<lambda>I. edge_path E (fst PS) (fst I)) Srcs)
               Storage)"

function loadShard_loop :: "Env \<Rightarrow> ShardStore \<Rightarrow> LoadState \<Rightarrow> LoadState" where
  "loadShard_loop E Storage st =
     (if ToVisit st = [] then st else loadShard_loop E Storage (loadShard_body E Storage st))"
  by pat_completeness auto

text \<open>The state in which the loop is entered.\<close>

definition loadShard_init :: "string \<Rightarrow> string set \<Rightarrow> LoadState" where
  "loadShard_init AbsolutePath Loaded =
     \<lparr>IntermediateSymbols = [], InQueue = {AbsolutePath}, Dependencies = [],
      ToVisit = [\<lparr>Path = AbsolutePath, NeedsReIndexing = True\<rparr>], LoadedShards = Loaded\<rparr>"

text \<open>
  The loop under \<^verbatim>\<open>ShardVersionsMu\<close> that installs the loaded shards. It dereferences
  \<^verbatim>\<open>SI.Shard\<close>; where that pointer is null the behaviour is undefined, which the model
  reports as a failure.
\<close>

datatype LoadFailure = NullShard

definition install_shard :: "ShardInfo \<Rightarrow> IndexState \<Rightarrow> LoadFailure + IndexState" where
  "install_shard SI st =
     (case SI_Shard SI of
        None \<Rightarrow> Inl NullShard
      | Some Shard \<Rightarrow>
          Inr (st\<lparr>ShardVersions :=
                    (ShardVersions st)(SI_AbsolutePath SI \<mapsto>
                       \<lparr>SV_Digest = SI_Digest SI, SV_HadErrors = SI_HadErrors SI\<rparr>),
                  IndexedSymbols :=
                    FileSymbols_update (SI_AbsolutePath SI) (In_Symbols Shard) (In_Refs Shard)
                      (In_Relations Shard) (SI_CountReferences SI) (IndexedSymbols st)\<rparr>))"

fun install_shards :: "ShardInfo list \<Rightarrow> IndexState \<Rightarrow> LoadFailure + IndexState" where
  "install_shards [] st = Inr st"
| "install_shards (SI # SIs) st =
     (case install_shard SI st of Inl e \<Rightarrow> Inl e | Inr st' \<Rightarrow> install_shards SIs st')"

text \<open>
  \<^verbatim>\<open>loadShard\<close> returns the dependencies; the set \<^verbatim>\<open>LoadedShards\<close> and the index state
  are what it leaves behind.
\<close>

definition loadShard ::
  "Env \<Rightarrow> CompileCommand \<Rightarrow> ShardStore \<Rightarrow> string set \<Rightarrow> IndexState \<Rightarrow>
   LoadFailure + Source list \<times> string set \<times> IndexState" where
  "loadShard E C Storage Loaded st =
     (let W = loadShard_loop E Storage (loadShard_init (getAbsolutePath E C) Loaded)
      in (case install_shards (IntermediateSymbols W) st of
            Inl e \<Rightarrow> Inl e
          | Inr st' \<Rightarrow> Inr (Dependencies W, LoadedShards W, st')))"

section \<open>Auxiliary notions for the proofs\<close>

text \<open>A cache is sound when each entry is what an uncached \<^verbatim>\<open>resolve\<close> would answer.\<close>

definition cache_ok :: "Env \<Rightarrow> string \<Rightarrow> (string \<rightharpoonup> string) \<Rightarrow> bool" where
  "cache_ok E HintPath Cache = (\<forall>u p. Cache u = Some p \<longrightarrow> p = resolve_path E HintPath u)"

text \<open>The body of the first loop of \<^verbatim>\<open>update\<close>, with the cache looked through.\<close>

definition take_file ::
  "Env \<Rightarrow> string \<Rightarrow> (string \<rightharpoonup> ShardVersion) \<Rightarrow> bool \<Rightarrow> string \<times> IncludeGraphNode \<Rightarrow>
   (string \<times> File) list \<Rightarrow> (string \<times> File) list" where
  "take_file E MainFile Snapshot HadErrors IndexIt Files =
     (if needs_rewrite Snapshot HadErrors (resolve_path E MainFile (URI (snd IndexIt)))
           (IGN_Digest (snd IndexIt))
      then modify (resolve_path E MainFile (URI (snd IndexIt)))
             (\<lambda>F. F\<lparr>File_Digest := IGN_Digest (snd IndexIt)\<rparr>)
             (try_emplace (resolve_path E MainFile (URI (snd IndexIt))) default_File Files)
      else Files)"

text \<open>The paths of \<^verbatim>\<open>Files\<close>, each with its digest.\<close>

definition digests :: "(string \<times> File) list \<Rightarrow> (string \<times> FileDigest) list" where
  "digests Files = map (\<lambda>kv. (fst kv, File_Digest (snd kv))) Files"

text \<open>The failures \<^verbatim>\<open>update\<close> logs for the shards it handed to a storage.\<close>

definition log_of :: "(string \<Rightarrow> IndexFileOut \<Rightarrow> string option) \<Rightarrow> (string \<times> IndexFileOut) list \<Rightarrow> (string \<times> string) list" where
  "log_of storeShard Shards =
     List.map_filter (\<lambda>PS. case storeShard (fst PS) (snd PS) of
                              None \<Rightarrow> None
                            | Some Error \<Rightarrow> Some (fst PS, Error)) Shards"

text \<open>The measure under which the walk of \<^verbatim>\<open>loadShard\<close> terminates.\<close>

definition loadShard_measure :: "Env \<Rightarrow> ShardStore \<Rightarrow> LoadState \<Rightarrow> nat" where
  "loadShard_measure E Storage st =
     card (set (edge_targets E Storage) - InQueue st) + length (ToVisit st)"

text \<open>
  The paths the walk has admitted so far, in the order of their admission.
\<close>

definition admitted :: "LoadState \<Rightarrow> string list" where
  "admitted st = map Path (Dependencies st @ ToVisit st)"

text \<open>
  The invariant of the walk's queue: no path is admitted twice, every admitted path is in
  \<^verbatim>\<open>InQueue\<close>, every path in \<^verbatim>\<open>InQueue\<close> is the main file or the target of a stored edge,
  and the main file was admitted first.
\<close>

definition queue_inv :: "Env \<Rightarrow> ShardStore \<Rightarrow> string \<Rightarrow> LoadState \<Rightarrow> bool" where
  "queue_inv E Storage Main st =
     (distinct (admitted st) \<and> set (admitted st) \<subseteq> InQueue st \<and>
      InQueue st \<subseteq> insert Main (set (edge_targets E Storage)) \<and>
      (\<exists>rest. admitted st = Main # rest))"

text \<open>
  The entries of a shard's include graph whose key resolves to the shard's own path.
\<close>

definition self_nodes :: "Env \<Rightarrow> string \<Rightarrow> IncludeGraph \<Rightarrow> (string \<times> IncludeGraphNode) list" where
  "self_nodes E p Srcs = filter (\<lambda>I. edge_path E p (fst I) = Some p) Srcs"

text \<open>
  The shard of a path loads with an include graph, the file can be read, and the digest
  of its bytes is the digest of the self node (the last one the loop meets).
\<close>

definition cache_hit :: "Env \<Rightarrow> ShardStore \<Rightarrow> string \<Rightarrow> bool" where
  "cache_hit E Storage p =
     (\<exists>Shard Srcs Buf.
        IndexStorage_loadShard Storage p = Some Shard \<and> In_Sources Shard = Some Srcs \<and>
        getBufferForFile E p = Some Buf \<and> self_nodes E p Srcs \<noteq> [] \<and>
        digest E Buf = IGN_Digest (snd (last (self_nodes E p Srcs))))"

text \<open>
  The value of \<^verbatim>\<open>CurDependency.NeedsReIndexing\<close> after the loop over the edges.
\<close>

fun needs_after :: "Env \<Rightarrow> string \<Rightarrow> IncludeGraph \<Rightarrow> bool \<Rightarrow> bool" where
  "needs_after E p [] b = b"
| "needs_after E p (I # Srcs) b =
     needs_after E p Srcs
       (if edge_path E p (fst I) = Some p
        then (case getBufferForFile E p of
                None \<Rightarrow> b
              | Some Buf \<Rightarrow> digest E Buf \<noteq> IGN_Digest (snd I))
        else b)"

text \<open>
  The invariant that relates \<^verbatim>\<open>NeedsReIndexing\<close> to the stored shards and the files.
\<close>

definition needs_inv :: "Env \<Rightarrow> ShardStore \<Rightarrow> string set \<Rightarrow> LoadState \<Rightarrow> bool" where
  "needs_inv E Storage Loaded st =
     (LoadedShards st = Loaded \<union> Path ` set (Dependencies st) \<and>
      (\<forall>D \<in> set (ToVisit st). NeedsReIndexing D) \<and>
      (\<forall>D \<in> set (Dependencies st).
         NeedsReIndexing D = (\<not> (Path D \<in> Loaded \<or> cache_hit E Storage (Path D)))))"

text \<open>
  The condition under which the specification has the file filter skip a file: the file
  has an absolute path, its digest can be computed, and the snapshot holds that digest for
  the path without errors.
\<close>

definition spec_skips :: "(string \<rightharpoonup> ShardVersion) \<Rightarrow> SourceManager \<Rightarrow> FileID \<Rightarrow> bool" where
  "spec_skips Snapshot SM FID =
     (\<exists>F AbsPath D SV.
        getFileEntryForID SM FID = Some F \<and> getCanonicalPath SM F = Some AbsPath \<and>
        digestFile SM FID = Some D \<and> Snapshot AbsPath = Some SV \<and>
        SV_Digest SV = D \<and> \<not> SV_HadErrors SV)"


section \<open>An example project\<close>

text \<open>
  A source file \<^verbatim>\<open>/a.cpp\<close> that includes \<^verbatim>\<open>/h.h\<close>, which includes itself, in an environment
  where a URI is the path it names and the digest of a buffer is its length.
\<close>

definition example_env :: Env where
  "example_env =
     \<lparr>URI_parse = (\<lambda>u. if u = [] then None else Some u),
      URI_resolve = (\<lambda>U Hint. Some U),
      URI_create = (\<lambda>p. p),
      digest = (\<lambda>Buf. [of_nat (length Buf)]),
      getBufferForFile = map_of [(''/a.cpp'', ''int x;''), (''/h.h'', ''int foo();'')],
      is_absolute = (\<lambda>p. take 1 p = ''/''),
      path_append = (\<lambda>d f. d @ ''/'' @ f),
      remove_dots = (\<lambda>p. p),
      BuildIndexPeriodMs = 0\<rparr>"

definition example_sources :: IncludeGraph where
  "example_sources =
     [(''/a.cpp'', \<lparr>Flags = SourceFlag_IsTU, URI = ''/a.cpp'', IGN_Digest = [6],
                    DirectIncludes = [''/h.h'']\<rparr>),
      (''/h.h'', \<lparr>Flags = SourceFlag_None, URI = ''/h.h'', IGN_Digest = [10],
                  DirectIncludes = [''/h.h'']\<rparr>)]"

definition example_cmd :: CompileCommand where
  "example_cmd = \<lparr>Directory = ''/'', Filename = ''/a.cpp'', CommandLine = []\<rparr>"

definition example_tu :: TUResult where
  "example_tu =
     \<lparr>Symbols = [\<lparr>ID = 1, CanonicalDeclaration = Some ''/h.h'', Definition = Some ''/a.cpp''\<rparr>],
      Refs = [(1, [\<lparr>Location = ''/a.cpp'', Kind = 0\<rparr>])],
      Relations = [],
      Sources = example_sources,
      Cmd = example_cmd\<rparr>"

definition example_state :: IndexState where
  "example_state =
     \<lparr>ShardVersions = [''/h.h'' \<mapsto> \<lparr>SV_Digest = [10], SV_HadErrors = False\<rparr>],
      IndexedSymbols = Map.empty, SymbolsUpdatedSinceLastIndex = False, Published = None\<rparr>"

text \<open>
  The shards stored for the two files. The graph they store is cyclic: \<^verbatim>\<open>/a.cpp\<close> includes
  \<^verbatim>\<open>/h.h\<close>, which includes itself and \<^verbatim>\<open>/a.cpp\<close>. The shard of \<^verbatim>\<open>/h.h\<close> is stale.
\<close>

definition example_store :: ShardStore where
  "example_store =
     [(''/a.cpp'',
       \<lparr>In_Symbols = Some [], In_Refs = None, In_Relations = None,
        In_Sources = Some
          [(''/a.cpp'', \<lparr>Flags = SourceFlag_IsTU, URI = ''/a.cpp'', IGN_Digest = [6],
                         DirectIncludes = [''/h.h'']\<rparr>),
           (''/h.h'', \<lparr>Flags = SourceFlag_None, URI = ''/h.h'', IGN_Digest = zero_digest,
                       DirectIncludes = []\<rparr>)],
        In_Cmd = Some \<lparr>Directory = ''/'', Filename = ''/a.cpp'', CommandLine = []\<rparr>\<rparr>),
      (''/h.h'',
       \<lparr>In_Symbols = Some [], In_Refs = None, In_Relations = None,
        In_Sources = Some
          [(''/h.h'', \<lparr>Flags = SourceFlag_None, URI = ''/h.h'', IGN_Digest = [9],
                       DirectIncludes = [''/h.h'', ''/a.cpp'']\<rparr>),
           (''/a.cpp'', \<lparr>Flags = SourceFlag_None, URI = ''/a.cpp'', IGN_Digest = zero_digest,
                         DirectIncludes = []\<rparr>)],
        In_Cmd = None\<rparr>)]"

definition empty_state :: IndexState where
  "empty_state =
     \<lparr>ShardVersions = Map.empty, IndexedSymbols = Map.empty,
      SymbolsUpdatedSinceLastIndex = False, Published = None\<rparr>"

text \<open>
  A state in which \<^verbatim>\<open>/a.cpp\<close> was indexed with errors, at the digest the file still has.
\<close>

definition broken_state :: IndexState where
  "broken_state =
     \<lparr>ShardVersions = [''/a.cpp'' \<mapsto> \<lparr>SV_Digest = [6], SV_HadErrors = True\<rparr>,
                       ''/h.h'' \<mapsto> \<lparr>SV_Digest = [10], SV_HadErrors = False\<rparr>],
      IndexedSymbols = Map.empty, SymbolsUpdatedSinceLastIndex = False, Published = None\<rparr>"

text \<open>
  A source manager that knows the two files and a third file that has a digest but no
  absolute path.
\<close>

definition example_sm :: SourceManager where
  "example_sm =
     \<lparr>getFileEntryForID = (\<lambda>FID. if FID \<le> 2 then Some FID else None),
      getCanonicalPath = map_of [(0, ''/a.cpp''), (1, ''/h.h'')],
      digestFile = map_of [(0, [6]), (1, [10]), (2, [0])]\<rparr>"





section \<open>The queue keeps Normal tasks in front\<close>

lemma insert_at_find_if:
  "insert_at (find_if P xs) x xs = takeWhile (\<lambda>y. \<not> P y) xs @ [x] @ dropWhile (\<lambda>y. \<not> P y) xs"
  by (simp add: insert_at_def find_if_def takeWhile_eq_take [symmetric]
      dropWhile_eq_drop [symmetric])

lemma insert_at_length: "insert_at (length xs) x xs = xs @ [x]"
  by (simp add: insert_at_def)

lemma normal_first_enqueue_default:
  assumes "normal_first q"
  shows "normal_first (insert_at (find_if (\<lambda>Elem. snd Elem = Background) q) (T, Default) q)"
proof -
  let ?P = "\<lambda>y :: 'a \<times> ThreadPriority. \<not> snd y = Background"
  have split: "q = takeWhile ?P q @ dropWhile ?P q" by simp
  from assms have "sorted_wrt (\<lambda>a b. \<not> (snd a = Background \<and> snd b = Default))
      (takeWhile ?P q @ dropWhile ?P q)"
    by (simp add: normal_first_def)
  moreover have "\<forall>a \<in> set (takeWhile ?P q). snd a \<noteq> Background"
    by (auto dest: set_takeWhileD)
  ultimately show ?thesis
    unfolding normal_first_def insert_at_find_if
    by (auto simp: sorted_wrt_append)
qed

lemma normal_first_enqueue_background:
  assumes "normal_first q"
  shows "normal_first (insert_at (length q) (T, Background) q)"
  using assms by (auto simp: normal_first_def insert_at_length sorted_wrt_append)

lemma normal_first_enqueueTask:
  "normal_first (Queue s) \<Longrightarrow> normal_first (Queue (enqueueTask T Priority s))"
  by (cases Priority)
    (simp_all add: enqueueTask_def normal_first_enqueue_default normal_first_enqueue_background)

lemma normal_first_run_dequeue:
  "normal_first (Queue s) \<Longrightarrow> normal_first (Queue (snd (run_dequeue s)))"
  by (auto simp: run_dequeue_def normal_first_def split: list.splits)

lemma normal_first_event:
  "normal_first (Queue s) \<Longrightarrow> normal_first (Queue (queue_event ev s))"
  by (cases ev)
    (simp_all add: normal_first_enqueueTask normal_first_run_dequeue run_finish_def stop_def)

lemma normal_first_fold:
  "normal_first (Queue s) \<Longrightarrow> normal_first (Queue (fold queue_event evs s))"
  by (induction evs arbitrary: s) (simp_all add: normal_first_event)

lemma normal_first_reachable: "normal_first (Queue (queue_after evs))"
  unfolding queue_after_def
  by (rule normal_first_fold) (simp add: initial_queue_def normal_first_def)

lemma normal_first_positions:
  assumes "normal_first q" and "i < length q" and "j < length q"
    and "snd (q ! i) = Default" and "snd (q ! j) = Background"
  shows "i < j"
proof (rule ccontr)
  assume "\<not> i < j"
  with assms have "j < i" by (cases "i = j") auto
  with assms(1,2) have "\<not> (snd (q ! j) = Background \<and> snd (q ! i) = Default)"
    by (simp add: normal_first_def sorted_wrt_iff_nth_less)
  with assms show False by simp
qed

text \<open>
  C3. In every state the queue can reach from the empty queue by enqueues, worker
  dispatches, task completions and \<^verbatim>\<open>stop\<close>, every Default (Normal) entry stands at a
  smaller position than every Background entry. An enqueue at Default priority places the
  task right before the first Background entry, an enqueue at Background priority places
  it at the end, and a worker takes the front entry or, when stopping, clears the queue.
\<close>

theorem queue_priority_order:
  "(i < length (Queue (queue_after evs)) \<and> j < length (Queue (queue_after evs)) \<and>
    snd (Queue (queue_after evs) ! i) = Default \<and>
    snd (Queue (queue_after evs) ! j) = Background \<longrightarrow> i < j)
   \<and> Queue (enqueueTask T Default s) =
       takeWhile (\<lambda>Elem. snd Elem \<noteq> Background) (Queue s) @ [(T, Default)] @
       dropWhile (\<lambda>Elem. snd Elem \<noteq> Background) (Queue s)
   \<and> Queue (enqueueTask T Background s) = Queue s @ [(T, Background)]
   \<and> Queue (snd (run_dequeue s)) = (if ShouldStop s then [] else tl (Queue s))"
proof (intro conjI impI)
  show "i < j"
    if "i < length (Queue (queue_after evs)) \<and> j < length (Queue (queue_after evs)) \<and>
      snd (Queue (queue_after evs) ! i) = Default \<and>
      snd (Queue (queue_after evs) ! j) = Background"
    using normal_first_positions [OF normal_first_reachable [of evs], of i j] that by simp
  show "Queue (enqueueTask T Default s) =
       takeWhile (\<lambda>Elem. snd Elem \<noteq> Background) (Queue s) @ [(T, Default)] @
       dropWhile (\<lambda>Elem. snd Elem \<noteq> Background) (Queue s)"
    by (simp add: enqueueTask_def insert_at_find_if)
  show "Queue (enqueueTask T Background s) = Queue s @ [(T, Background)]"
    by (simp add: enqueueTask_def insert_at_length)
  show "Queue (snd (run_dequeue s)) = (if ShouldStop s then [] else tl (Queue s))"
    by (simp add: run_dequeue_def split: list.splits)
qed

theorem queue_priority_order_witness:
  "(0::nat) < length (Queue (queue_after
       [EnqueueTask (1::nat) Background, EnqueueTask 2 Background, EnqueueTask 3 Default]))
   \<and> (1::nat) < length (Queue (queue_after
       [EnqueueTask (1::nat) Background, EnqueueTask 2 Background, EnqueueTask 3 Default]))
   \<and> snd (Queue (queue_after
       [EnqueueTask (1::nat) Background, EnqueueTask 2 Background, EnqueueTask 3 Default]) ! 0)
      = Default
   \<and> snd (Queue (queue_after
       [EnqueueTask (1::nat) Background, EnqueueTask 2 Background, EnqueueTask 3 Default]) ! 1)
      = Background
   \<and> (0::nat) < 1
   \<and> Queue (queue_after
       [EnqueueTask (1::nat) Background, EnqueueTask 2 Background, EnqueueTask 3 Default,
        WorkerDequeue])
      = [(1, Background), (2, Background)]"
  using queue_priority_order [of 0
      "[EnqueueTask (1::nat) Background, EnqueueTask 2 Background, EnqueueTask 3 Default]" 1]
  by (simp add: queue_after_def initial_queue_def enqueueTask_def find_if_def insert_at_def
      run_dequeue_def)

section \<open>Properties of \<^verbatim>\<open>update\<close>\<close>

lemma cache_ok_empty: "cache_ok E H Map.empty"
  by (simp add: cache_ok_def)

lemma resolve_uncached:
  "Cache u = None \<Longrightarrow> resolve E H Cache u = (resolve_path E H u, Cache(u \<mapsto> resolve_path E H u))"
  by (simp add: resolve_def resolve_path_def split: option.splits)

lemma resolve_cached:
  assumes "cache_ok E H Cache"
  shows "fst (resolve E H Cache u) = resolve_path E H u"
    and "cache_ok E H (snd (resolve E H Cache u))"
proof -
  show "fst (resolve E H Cache u) = resolve_path E H u"
  proof (cases "Cache u")
    case None
    then show ?thesis by (simp add: resolve_uncached)
  next
    case (Some c)
    with assms have "c = resolve_path E H u" by (simp add: cache_ok_def)
    with Some show ?thesis by (simp add: resolve_def)
  qed
  show "cache_ok E H (snd (resolve E H Cache u))"
  proof (cases "Cache u")
    case None
    with assms show ?thesis by (simp add: resolve_uncached cache_ok_def)
  next
    case (Some c)
    with assms show ?thesis by (simp add: resolve_def)
  qed
qed

lemma collect_file_cached:
  assumes "cache_ok E H (snd acc)"
  shows "fst (collect_file E H Snap HE It acc) = take_file E H Snap HE It (fst acc)"
    and "cache_ok E H (snd (collect_file E H Snap HE It acc))"
  using resolve_cached [OF assms]
  by (simp_all add: collect_file_def take_file_def Let_def)

lemma fold_collect_file_cached:
  assumes "cache_ok E H (snd acc)"
  shows "fst (fold (collect_file E H Snap HE) Srcs acc) = fold (take_file E H Snap HE) Srcs (fst acc)
       \<and> cache_ok E H (snd (fold (collect_file E H Snap HE) Srcs acc))"
  using assms
proof (induction Srcs arbitrary: acc)
  case Nil
  then show ?case by simp
next
  case (Cons It Srcs)
  from collect_file_cached [OF Cons.prems]
  show ?case using Cons.IH [of "collect_file E H Snap HE It acc"] by simp
qed

lemma files_to_rewrite_fold:
  "files_to_rewrite E H Snap HE Srcs = fold (take_file E H Snap HE) Srcs []"
  using fold_collect_file_cached [of E H "([], Map.empty)" Snap HE Srcs]
  by (simp add: files_to_rewrite_def collect_files_def cache_ok_empty)

lemma collect_files_cache_ok: "cache_ok E H (snd (collect_files E H Snap HE Srcs))"
  using fold_collect_file_cached [of E H "([], Map.empty)" Snap HE Srcs]
  by (simp add: collect_files_def cache_ok_empty)

lemma keys_modify: "map fst (modify k f m) = map fst m"
  by (induction m) (simp_all add: modify_def)

lemma keys_try_emplace: "fst ` set (try_emplace k d m) = insert k (fst ` set m)"
  by (auto simp: try_emplace_def map_of_eq_None_iff)

lemma set_keys_modify: "fst ` set (modify k f m) = fst ` set m"
  using keys_modify [of k f m] by (metis set_map)

lemma keys_take_file:
  "fst ` set (take_file E H Snap HE It Files) =
     (if needs_rewrite Snap HE (resolve_path E H (URI (snd It))) (IGN_Digest (snd It))
      then insert (resolve_path E H (URI (snd It))) (fst ` set Files)
      else fst ` set Files)"
  by (simp add: take_file_def set_keys_modify keys_try_emplace)

lemma keys_fold_take_file:
  "fst ` set (fold (take_file E H Snap HE) Srcs Files) =
     fst ` set Files \<union>
     (\<lambda>It. resolve_path E H (URI (snd It))) `
       {It \<in> set Srcs.
          needs_rewrite Snap HE (resolve_path E H (URI (snd It))) (IGN_Digest (snd It))}"
proof (induction Srcs arbitrary: Files)
  case Nil
  then show ?case by simp
next
  case (Cons It Srcs)
  show ?case
    unfolding fold_simps Cons.IH keys_take_file by auto
qed

lemma entry_modify:
  assumes "(p, F) \<in> set (modify k f m)"
  shows "(p \<noteq> k \<and> (p, F) \<in> set m) \<or> (p = k \<and> (\<exists>F0. F = f F0))"
  using assms by (auto simp: modify_def split: if_splits)

lemma entry_try_emplace:
  assumes "(p, F) \<in> set (try_emplace k d m)"
  shows "(p, F) \<in> set m \<or> (p = k \<and> F = d)"
  using assms by (auto simp: try_emplace_def split: if_splits)

lemma entry_take_file:
  assumes "(p, F) \<in> set (take_file E H Snap HE It Files)"
  shows "(p, F) \<in> set Files \<or>
         (resolve_path E H (URI (snd It)) = p \<and> needs_rewrite Snap HE p (IGN_Digest (snd It))
          \<and> File_Digest F = IGN_Digest (snd It))"
proof (cases "needs_rewrite Snap HE (resolve_path E H (URI (snd It))) (IGN_Digest (snd It))")
  case False
  with assms show ?thesis by (simp add: take_file_def)
next
  case True
  let ?k = "resolve_path E H (URI (snd It))"
  from assms True have "(p, F) \<in> set (modify ?k (\<lambda>F. F\<lparr>File_Digest := IGN_Digest (snd It)\<rparr>)
      (try_emplace ?k default_File Files))"
    by (simp add: take_file_def)
  from entry_modify [OF this] show ?thesis
  proof
    assume a: "p \<noteq> ?k \<and> (p, F) \<in> set (try_emplace ?k default_File Files)"
    with entry_try_emplace [of p F ?k default_File Files] show ?thesis by simp
  next
    assume "p = ?k \<and> (\<exists>F0. F = F0\<lparr>File_Digest := IGN_Digest (snd It)\<rparr>)"
    with True show ?thesis by auto
  qed
qed

lemma entry_fold_take_file:
  assumes "(p, F) \<in> set (fold (take_file E H Snap HE) Srcs Files)"
  shows "(p, F) \<in> set Files \<or>
         (\<exists>It \<in> set Srcs. resolve_path E H (URI (snd It)) = p
            \<and> needs_rewrite Snap HE p (IGN_Digest (snd It))
            \<and> File_Digest F = IGN_Digest (snd It))"
  using assms
proof (induction Srcs arbitrary: Files)
  case Nil
  then show ?case by simp
next
  case (Cons It Srcs)
  from Cons.prems have "(p, F) \<in> set (fold (take_file E H Snap HE) Srcs
      (take_file E H Snap HE It Files))" by simp
  from Cons.IH [OF this] show ?case
  proof
    assume "(p, F) \<in> set (take_file E H Snap HE It Files)"
    from entry_take_file [OF this] show ?thesis by auto
  next
    assume "\<exists>It \<in> set Srcs. resolve_path E H (URI (snd It)) = p
            \<and> needs_rewrite Snap HE p (IGN_Digest (snd It))
            \<and> File_Digest F = IGN_Digest (snd It)"
    then show ?thesis by auto
  qed
qed


lemma digests_modify:
  assumes "\<And>F. File_Digest (f F) = File_Digest F"
  shows "digests (modify k f m) = digests m"
  by (induction m) (simp_all add: digests_def modify_def assms)

lemma digests_partition_symbol:
  "digests (fst (partition_symbol E H Sym acc)) = digests (fst acc)"
  by (simp add: partition_symbol_def Let_def digests_modify split: option.splits)

lemma digests_fold_partition_symbol:
  "digests (fst (fold (partition_symbol E H) Syms acc)) = digests (fst acc)"
  by (induction Syms arbitrary: acc) (simp_all add: digests_partition_symbol)

lemma digests_partition_ref:
  "digests (fst (partition_ref E H SymID R acc)) = digests (fst acc)"
  by (simp add: partition_ref_def Let_def digests_modify)

lemma digests_fold_partition_ref:
  "digests (fst (fold (partition_ref E H SymID) Rs acc)) = digests (fst acc)"
  by (induction Rs arbitrary: acc) (simp_all add: digests_partition_ref)

lemma digests_partition_refs:
  "digests (fst (partition_refs E H SymRefs acc)) = digests (fst acc)"
  by (simp add: partition_refs_def digests_fold_partition_ref)

lemma digests_fold_partition_refs:
  "digests (fst (fold (partition_refs E H) Rs acc)) = digests (fst acc)"
  by (induction Rs arbitrary: acc) (simp_all add: digests_partition_refs)

lemma digests_partition_relation:
  "digests (partition_relation M Rel Files) = digests Files"
  by (simp add: partition_relation_def digests_modify split: option.splits)

lemma digests_fold_partition_relation:
  "digests (fold (partition_relation M) Rels Files) = digests Files"
  by (induction Rels arbitrary: Files) (simp_all add: digests_partition_relation)

lemma digests_partition_files:
  "digests (partition_files E H Index Snap HE) = digests (files_to_rewrite E H Snap HE (Sources Index))"
  by (simp add: partition_files_def Let_def files_to_rewrite_def
      digests_fold_partition_relation digests_fold_partition_refs
      digests_fold_partition_symbol)

lemma digests_keys: "fst ` set (digests Files) = fst ` set Files"
  by (force simp: digests_def)

lemma digests_entry:
  "((p, D) \<in> set (digests Files)) = (\<exists>F. (p, F) \<in> set Files \<and> File_Digest F = D)"
  by (force simp: digests_def)

text \<open>
  C4. When the loop that stores and commits begins, a path is among the files to rewrite
  exactly when it is the resolved path of a node of the sources graph such that the path is
  absent from the snapshot, or the snapshot's digest differs from the node's, or the
  snapshot records errors and this run had none; and the digest recorded for a file to
  rewrite is the digest of such a node. For a node that alone resolves to its path, the
  path is among the files to rewrite exactly when the condition holds of that node, and the
  digest recorded is that node's.
\<close>

theorem update_files_to_rewrite:
  "(AbsPath \<in> fst ` set (partition_files E MainFile Index Snapshot HadErrors)) =
     (\<exists>IndexIt \<in> set (Sources Index).
        resolve_path E MainFile (URI (snd IndexIt)) = AbsPath \<and>
        (Snapshot AbsPath = None \<or>
         (\<exists>SV. Snapshot AbsPath = Some SV \<and>
            (SV_Digest SV \<noteq> IGN_Digest (snd IndexIt) \<or> (SV_HadErrors SV \<and> \<not> HadErrors)))))
   \<and> ((AbsPath, F) \<in> set (partition_files E MainFile Index Snapshot HadErrors) \<longrightarrow>
        (\<exists>IndexIt \<in> set (Sources Index).
           resolve_path E MainFile (URI (snd IndexIt)) = AbsPath \<and>
           File_Digest F = IGN_Digest (snd IndexIt) \<and>
           (Snapshot AbsPath = None \<or>
            (\<exists>SV. Snapshot AbsPath = Some SV \<and>
               (SV_Digest SV \<noteq> IGN_Digest (snd IndexIt) \<or>
                (SV_HadErrors SV \<and> \<not> HadErrors))))))
   \<and> (N \<in> set (Sources Index) \<and>
        (\<forall>N' \<in> set (Sources Index).
           resolve_path E MainFile (URI (snd N')) = resolve_path E MainFile (URI (snd N))
           \<longrightarrow> N' = N) \<longrightarrow>
        (resolve_path E MainFile (URI (snd N))
           \<in> fst ` set (partition_files E MainFile Index Snapshot HadErrors)) =
          (Snapshot (resolve_path E MainFile (URI (snd N))) = None \<or>
           (\<exists>SV. Snapshot (resolve_path E MainFile (URI (snd N))) = Some SV \<and>
              (SV_Digest SV \<noteq> IGN_Digest (snd N) \<or> (SV_HadErrors SV \<and> \<not> HadErrors)))) \<and>
        (\<forall>F'. (resolve_path E MainFile (URI (snd N)), F')
                 \<in> set (partition_files E MainFile Index Snapshot HadErrors) \<longrightarrow>
              File_Digest F' = IGN_Digest (snd N)))"
proof -
  let ?Files = "partition_files E MainFile Index Snapshot HadErrors"
  let ?First = "files_to_rewrite E MainFile Snapshot HadErrors (Sources Index)"
  have cond: "\<And>p D. needs_rewrite Snapshot HadErrors p D =
      (Snapshot p = None \<or>
       (\<exists>SV. Snapshot p = Some SV \<and> (SV_Digest SV \<noteq> D \<or> (SV_HadErrors SV \<and> \<not> HadErrors))))"
    by (simp add: needs_rewrite_def split: option.splits)
  have "fst ` set ?Files = fst ` set ?First"
    using digests_partition_files [of E MainFile Index Snapshot HadErrors]
    by (metis digests_keys)
  then have keys: "(AbsPath \<in> fst ` set ?Files) =
      (\<exists>IndexIt \<in> set (Sources Index).
         resolve_path E MainFile (URI (snd IndexIt)) = AbsPath \<and>
         needs_rewrite Snapshot HadErrors AbsPath (IGN_Digest (snd IndexIt)))"
    by (auto simp: files_to_rewrite_fold keys_fold_take_file)
  have entry: "\<exists>IndexIt \<in> set (Sources Index).
         resolve_path E MainFile (URI (snd IndexIt)) = AbsPath \<and>
         File_Digest F = IGN_Digest (snd IndexIt) \<and>
         needs_rewrite Snapshot HadErrors AbsPath (IGN_Digest (snd IndexIt))"
    if "(AbsPath, F) \<in> set ?Files"
  proof -
    from that have "(AbsPath, File_Digest F) \<in> set (digests ?Files)"
      by (auto simp: digests_entry)
    then have "(AbsPath, File_Digest F) \<in> set (digests ?First)"
      by (simp add: digests_partition_files)
    then obtain F0 where "(AbsPath, F0) \<in> set ?First" and "File_Digest F0 = File_Digest F"
      by (auto simp: digests_entry)
    with entry_fold_take_file [of AbsPath F0 E MainFile Snapshot HadErrors "Sources Index" "[]"]
    show ?thesis by (auto simp: files_to_rewrite_fold)
  qed
  have keys_at: "(p \<in> fst ` set ?Files) =
      (\<exists>IndexIt \<in> set (Sources Index).
         resolve_path E MainFile (URI (snd IndexIt)) = p \<and>
         needs_rewrite Snapshot HadErrors p (IGN_Digest (snd IndexIt)))" for p
    using \<open>fst ` set ?Files = fst ` set ?First\<close>
    by (auto simp: files_to_rewrite_fold keys_fold_take_file)
  have entry_at: "\<exists>IndexIt \<in> set (Sources Index).
         resolve_path E MainFile (URI (snd IndexIt)) = p \<and>
         File_Digest F' = IGN_Digest (snd IndexIt) \<and>
         needs_rewrite Snapshot HadErrors p (IGN_Digest (snd IndexIt))"
    if "(p, F') \<in> set ?Files" for p F'
  proof -
    from that have "(p, File_Digest F') \<in> set (digests ?Files)"
      by (auto simp: digests_entry)
    then have "(p, File_Digest F') \<in> set (digests ?First)"
      by (simp add: digests_partition_files)
    then obtain F0 where "(p, F0) \<in> set ?First" and "File_Digest F0 = File_Digest F'"
      by (auto simp: digests_entry)
    with entry_fold_take_file [of p F0 E MainFile Snapshot HadErrors "Sources Index" "[]"]
    show ?thesis by (auto simp: files_to_rewrite_fold)
  qed
  have single: "(resolve_path E MainFile (URI (snd N)) \<in> fst ` set ?Files) =
          needs_rewrite Snapshot HadErrors (resolve_path E MainFile (URI (snd N)))
            (IGN_Digest (snd N)) \<and>
        (\<forall>F'. (resolve_path E MainFile (URI (snd N)), F') \<in> set ?Files \<longrightarrow>
              File_Digest F' = IGN_Digest (snd N))"
    if N: "N \<in> set (Sources Index)"
      and only: "\<forall>N' \<in> set (Sources Index).
           resolve_path E MainFile (URI (snd N')) = resolve_path E MainFile (URI (snd N))
           \<longrightarrow> N' = N"
  proof (intro conjI allI impI)
    show "(resolve_path E MainFile (URI (snd N)) \<in> fst ` set ?Files) =
          needs_rewrite Snapshot HadErrors (resolve_path E MainFile (URI (snd N)))
            (IGN_Digest (snd N))"
      unfolding keys_at using N only by blast
    show "File_Digest F' = IGN_Digest (snd N)"
      if "(resolve_path E MainFile (URI (snd N)), F') \<in> set ?Files" for F'
      using entry_at [OF that] only by blast
  qed
  show ?thesis
    using keys entry single unfolding cond by blast
qed

theorem update_files_to_rewrite_witness:
  "(''/a.cpp'',
    \<lparr>File_Symbols = [\<lparr>ID = 1, CanonicalDeclaration = Some ''/h.h'', Definition = Some ''/a.cpp''\<rparr>],
     File_Refs = [(1, \<lparr>Location = ''/a.cpp'', Kind = 0\<rparr>)], File_Relations = [],
     File_Digest = [6]\<rparr>)
     \<in> set (partition_files example_env ''/a.cpp'' example_tu (ShardVersions example_state) False)
   \<and> ''/h.h'' \<notin> fst ` set (partition_files example_env ''/a.cpp'' example_tu
                                (ShardVersions example_state) False)
   \<and> (\<exists>IndexIt \<in> set (Sources example_tu).
         resolve_path example_env ''/a.cpp'' (URI (snd IndexIt)) = ''/a.cpp'' \<and>
         [6] = IGN_Digest (snd IndexIt) \<and>
         ShardVersions example_state ''/a.cpp'' = None)"
proof -
  let ?F = "\<lparr>File_Symbols = [\<lparr>ID = 1, CanonicalDeclaration = Some ''/h.h'', Definition = Some ''/a.cpp''\<rparr>],
     File_Refs = [(1, \<lparr>Location = ''/a.cpp'', Kind = 0\<rparr>)], File_Relations = [],
     File_Digest = [6]\<rparr>"
  have files: "partition_files example_env ''/a.cpp'' example_tu (ShardVersions example_state) False
      = [(''/a.cpp'', ?F)]"
    by code_simp
  have none: "ShardVersions example_state ''/a.cpp'' = None"
    by (simp add: example_state_def)
  from update_files_to_rewrite [of "''/a.cpp''" example_env "''/a.cpp''" example_tu
      "ShardVersions example_state" False ?F] files none
  show ?thesis by auto
qed

lemma fst_store_and_commit:
  "fst (store_and_commit E M Index S HE FileIt acc) =
     commit_shard M (fst FileIt) (File_Digest (snd FileIt)) HE (File_Symbols (snd FileIt))
       (fold (\<lambda>R Slab. RefSlab_insert (fst R) (snd R) Slab) (File_Refs (snd FileIt)) [])
       (File_Relations (snd FileIt)) (fst acc)"
  by (simp add: store_and_commit_def Let_def)

lemma snd_store_and_commit:
  "snd (store_and_commit E M Index S HE FileIt acc) =
     store_shard M Index S (fst FileIt) (File_Symbols (snd FileIt))
       (fold (\<lambda>R Slab. RefSlab_insert (fst R) (snd R) Slab) (File_Refs (snd FileIt)) [])
       (File_Relations (snd FileIt)) (getSubGraph (URI_create E (fst FileIt)) (Sources Index))
       (snd acc)"
  by (simp add: store_and_commit_def Let_def)

lemma fold_commit_independent:
  assumes "fst a1 = fst a2"
  shows "fst (fold (store_and_commit E M Index S1 HE) Files a1) =
         fst (fold (store_and_commit E M Index S2 HE) Files a2)"
  using assms
proof (induction Files arbitrary: a1 a2)
  case Nil
  then show ?case by simp
next
  case (Cons FileIt Files)
  have "fst (store_and_commit E M Index S1 HE FileIt a1) =
        fst (store_and_commit E M Index S2 HE FileIt a2)"
    using Cons.prems by (simp add: fst_store_and_commit)
  from Cons.IH [OF this] show ?case by simp
qed

lemma dom_commit_shard:
  "dom (ShardVersions st) \<subseteq> dom (ShardVersions (commit_shard M p D HE SS RS RelS st))"
  by (auto simp: commit_shard_def)

lemma dom_fold_commit:
  "dom (ShardVersions (fst acc)) \<subseteq>
   dom (ShardVersions (fst (fold (store_and_commit E M Index S HE) Files acc)))"
proof (induction Files arbitrary: acc)
  case Nil
  then show ?case by simp
next
  case (Cons FileIt Files)
  have "dom (ShardVersions (fst acc)) \<subseteq>
        dom (ShardVersions (fst (store_and_commit E M Index S HE FileIt acc)))"
    by (simp add: fst_store_and_commit dom_commit_shard)
  also have "\<dots> \<subseteq> dom (ShardVersions (fst (fold (store_and_commit E M Index S HE) Files
      (store_and_commit E M Index S HE FileIt acc))))"
    by (rule Cons.IH)
  finally show ?case by simp
qed

lemma dom_update:
  "dom (ShardVersions st) \<subseteq> dom (ShardVersions (fst (update E M Index Snap S HE st)))"
  using dom_fold_commit [of "(st, \<lparr>Stored = [], Logged = []\<rparr>)" E M Index S HE]
  by (simp add: update_def)

lemma map_filter_append:
  "List.map_filter f (xs @ ys) = List.map_filter f xs @ List.map_filter f ys"
  by (simp add: List.map_filter_def)

lemma store_shard_Some:
  "Stored (store_shard M Index (Some s) p SS RS RelS IG eff) =
     Stored eff @ [(p, \<lparr>Out_Symbols = Some SS, Out_Refs = Some RS, Out_Relations = Some RelS,
                        Out_Sources = Some IG,
                        Out_Cmd = (if p = M then Some (Cmd Index) else None)\<rparr>)]"
  by (simp add: store_shard_def Let_def split: option.splits)

lemma store_shard_None: "store_shard M Index None p SS RS RelS IG eff = eff"
  by (simp add: store_shard_def)

lemma store_shard_log:
  assumes "Logged eff = log_of s (Stored eff)"
  shows "Logged (store_shard M Index (Some s) p SS RS RelS IG eff) =
         log_of s (Stored (store_shard M Index (Some s) p SS RS RelS IG eff))"
  using assms
  by (simp add: store_shard_def Let_def log_of_def map_filter_append split: option.splits)

lemma store_shard_cmd:
  assumes "\<forall>PS \<in> set (Stored eff). Out_Cmd (snd PS) = (if fst PS = M then Some (Cmd Index) else None)"
  shows "\<forall>PS \<in> set (Stored (store_shard M Index S p SS RS RelS IG eff)).
           Out_Cmd (snd PS) = (if fst PS = M then Some (Cmd Index) else None)"
  using assms by (cases S) (auto simp: store_shard_None store_shard_Some)

lemma fold_store_paths:
  "map fst (Stored (snd (fold (store_and_commit E M Index (Some s) HE) Files acc))) =
     map fst (Stored (snd acc)) @ map fst Files"
proof (induction Files arbitrary: acc)
  case Nil
  then show ?case by simp
next
  case (Cons FileIt Files)
  show ?case
    by (simp add: Cons.IH snd_store_and_commit store_shard_Some)
qed

lemma fold_store_log:
  assumes "Logged (snd acc) = log_of s (Stored (snd acc))"
  shows "Logged (snd (fold (store_and_commit E M Index (Some s) HE) Files acc)) =
         log_of s (Stored (snd (fold (store_and_commit E M Index (Some s) HE) Files acc)))"
  using assms
proof (induction Files arbitrary: acc)
  case Nil
  then show ?case by simp
next
  case (Cons FileIt Files)
  have "Logged (snd (store_and_commit E M Index (Some s) HE FileIt acc)) =
        log_of s (Stored (snd (store_and_commit E M Index (Some s) HE FileIt acc)))"
    unfolding snd_store_and_commit using Cons.prems by (rule store_shard_log)
  from Cons.IH [OF this] show ?case by simp
qed

lemma fold_store_cmd:
  assumes "\<forall>PS \<in> set (Stored (snd acc)).
             Out_Cmd (snd PS) = (if fst PS = M then Some (Cmd Index) else None)"
  shows "\<forall>PS \<in> set (Stored (snd (fold (store_and_commit E M Index S HE) Files acc))).
           Out_Cmd (snd PS) = (if fst PS = M then Some (Cmd Index) else None)"
  using assms
proof (induction Files arbitrary: acc)
  case Nil
  then show ?case by simp
next
  case (Cons FileIt Files)
  have "\<forall>PS \<in> set (Stored (snd (store_and_commit E M Index S HE FileIt acc))).
          Out_Cmd (snd PS) = (if fst PS = M then Some (Cmd Index) else None)"
    unfolding snd_store_and_commit using Cons.prems by (rule store_shard_cmd)
  from Cons.IH [OF this] show ?case by simp
qed

text \<open>
  C7. Whatever \<^verbatim>\<open>storeShard\<close> answers, \<^verbatim>\<open>update\<close> leaves the index state it would
  leave had every write succeeded; it hands a shard to the storage for every file to
  rewrite, logs exactly the writes that failed, and attaches the compile command to the
  shard of the main file and to no other.
\<close>

theorem update_store_failure:
  "fst (update E MainFile Index Snapshot (Some storeShard) HadErrors st) =
     fst (update E MainFile Index Snapshot (Some (\<lambda>P Shard. None)) HadErrors st)
   \<and> map fst (Stored (snd (update E MainFile Index Snapshot (Some storeShard) HadErrors st))) =
       map fst (partition_files E MainFile Index Snapshot HadErrors)
   \<and> Logged (snd (update E MainFile Index Snapshot (Some storeShard) HadErrors st)) =
       log_of storeShard
         (Stored (snd (update E MainFile Index Snapshot (Some storeShard) HadErrors st)))
   \<and> (\<forall>PS \<in> set (Stored (snd (update E MainFile Index Snapshot (Some storeShard) HadErrors st))).
         Out_Cmd (snd PS) = (if fst PS = MainFile then Some (Cmd Index) else None))"
proof (intro conjI)
  show "fst (update E MainFile Index Snapshot (Some storeShard) HadErrors st) =
        fst (update E MainFile Index Snapshot (Some (\<lambda>P Shard. None)) HadErrors st)"
    unfolding update_def by (rule fold_commit_independent) simp
  show "map fst (Stored (snd (update E MainFile Index Snapshot (Some storeShard) HadErrors st))) =
       map fst (partition_files E MainFile Index Snapshot HadErrors)"
    by (simp add: update_def fold_store_paths)
  show "Logged (snd (update E MainFile Index Snapshot (Some storeShard) HadErrors st)) =
       log_of storeShard
         (Stored (snd (update E MainFile Index Snapshot (Some storeShard) HadErrors st)))"
    unfolding update_def by (rule fold_store_log) (simp add: log_of_def)
  show "\<forall>PS \<in> set (Stored (snd (update E MainFile Index Snapshot (Some storeShard) HadErrors st))).
         Out_Cmd (snd PS) = (if fst PS = MainFile then Some (Cmd Index) else None)"
    unfolding update_def by (rule fold_store_cmd) simp
qed

theorem update_store_failure_witness:
  "ShardVersions (fst (update example_env ''/a.cpp'' example_tu (ShardVersions example_state)
                         (Some (\<lambda>P Shard. Some ''disk full'')) False example_state)) ''/a.cpp''
     = Some \<lparr>SV_Digest = [6], SV_HadErrors = False\<rparr>
   \<and> Logged (snd (update example_env ''/a.cpp'' example_tu (ShardVersions example_state)
                      (Some (\<lambda>P Shard. Some ''disk full'')) False example_state))
     = [(''/a.cpp'', ''disk full'')]
   \<and> map (\<lambda>PS. (fst PS, Out_Cmd (snd PS)))
       (Stored (snd (update example_env ''/a.cpp'' example_tu (ShardVersions example_state)
                       (Some (\<lambda>P Shard. Some ''disk full'')) False example_state)))
     = [(''/a.cpp'', Some example_cmd)]"
proof -
  have ok: "ShardVersions (fst (update example_env ''/a.cpp'' example_tu (ShardVersions example_state)
                         (Some (\<lambda>P Shard. None)) False example_state)) ''/a.cpp''
     = Some \<lparr>SV_Digest = [6], SV_HadErrors = False\<rparr>"
    by code_simp
  have "fst (update example_env ''/a.cpp'' example_tu (ShardVersions example_state)
               (Some (\<lambda>P Shard. Some ''disk full'')) False example_state)
      = fst (update example_env ''/a.cpp'' example_tu (ShardVersions example_state)
               (Some (\<lambda>P Shard. None)) False example_state)"
    using update_store_failure [of example_env "''/a.cpp''" example_tu
        "ShardVersions example_state" "\<lambda>P Shard. Some ''disk full''" False example_state]
    by blast
  with ok have "ShardVersions (fst (update example_env ''/a.cpp'' example_tu (ShardVersions example_state)
                         (Some (\<lambda>P Shard. Some ''disk full'')) False example_state)) ''/a.cpp''
     = Some \<lparr>SV_Digest = [6], SV_HadErrors = False\<rparr>"
    by simp
  moreover have "Logged (snd (update example_env ''/a.cpp'' example_tu (ShardVersions example_state)
                      (Some (\<lambda>P Shard. Some ''disk full'')) False example_state))
     = [(''/a.cpp'', ''disk full'')]"
    by code_simp
  moreover have "map (\<lambda>PS. (fst PS, Out_Cmd (snd PS)))
       (Stored (snd (update example_env ''/a.cpp'' example_tu (ShardVersions example_state)
                       (Some (\<lambda>P Shard. Some ''disk full'')) False example_state)))
     = [(''/a.cpp'', Some example_cmd)]"
    by code_simp
  ultimately show ?thesis by blast
qed

lemma commit_skips_iff:
  "commit_skips Versions p Hash HadErrors =
     (\<exists>SV. Versions p = Some SV \<and> SV_Digest SV = Hash \<and> SV_HadErrors SV \<and> \<not> HadErrors)"
  by (auto simp: commit_skips_def Let_def split: option.splits)

lemma commit_shard_skip:
  "commit_skips (ShardVersions st) p Hash HadErrors \<Longrightarrow>
   commit_shard M p Hash HadErrors SS RS RelS st = st"
  by (simp add: commit_shard_def)

lemma commit_shard_write:
  assumes "\<not> commit_skips (ShardVersions st) p Hash HadErrors"
  shows "ShardVersions (commit_shard M p Hash HadErrors SS RS RelS st) p =
           Some \<lparr>SV_Digest = Hash, SV_HadErrors = HadErrors\<rparr>"
    and "IndexedSymbols (commit_shard M p Hash HadErrors SS RS RelS st) p =
           Some \<lparr>FS_Symbols = Some SS, FS_Refs = Some RS, FS_Relations = Some RelS,
                 FS_CountReferences = (p = M)\<rparr>"
  using assms by (simp_all add: commit_shard_def FileSymbols_update_def)

text \<open>
  C1. The test that skips a file in the final commit of \<^verbatim>\<open>update\<close> is the inverse of what
  its comment and the specification say. Where the table holds \<^verbatim>\<open>/a.cpp\<close> with the digest of the
  file and \<^verbatim>\<open>HadErrors\<close> set, and the file is indexed again without errors, the file is
  among the files to rewrite, yet the commit is skipped: the entry keeps \<^verbatim>\<open>HadErrors\<close> and
  the indexed symbols get nothing. Where the table holds the same digest without errors
  (the entry a concurrent thread wrote), the commit is not skipped.
\<close>

theorem update_commit_skips_fixed_file:
  "map fst (partition_files example_env ''/a.cpp'' example_tu (ShardVersions broken_state) False)
     = [''/a.cpp'']
   \<and> ShardVersions (fst (update example_env ''/a.cpp'' example_tu (ShardVersions broken_state)
                           None False broken_state)) ''/a.cpp''
     = Some \<lparr>SV_Digest = [6], SV_HadErrors = True\<rparr>
   \<and> IndexedSymbols (fst (update example_env ''/a.cpp'' example_tu (ShardVersions broken_state)
                            None False broken_state)) ''/a.cpp''
     = None
   \<and> commit_skips [''/a.cpp'' \<mapsto> \<lparr>SV_Digest = [6], SV_HadErrors = True\<rparr>] ''/a.cpp'' [6] False
   \<and> \<not> commit_skips [''/a.cpp'' \<mapsto> \<lparr>SV_Digest = [6], SV_HadErrors = False\<rparr>] ''/a.cpp'' [6] False"
proof (intro conjI)
  show "map fst (partition_files example_env ''/a.cpp'' example_tu (ShardVersions broken_state) False)
     = [''/a.cpp'']"
    by code_simp
  show "ShardVersions (fst (update example_env ''/a.cpp'' example_tu (ShardVersions broken_state)
                           None False broken_state)) ''/a.cpp''
     = Some \<lparr>SV_Digest = [6], SV_HadErrors = True\<rparr>"
    by code_simp
  show "IndexedSymbols (fst (update example_env ''/a.cpp'' example_tu (ShardVersions broken_state)
                            None False broken_state)) ''/a.cpp''
     = None"
    by code_simp
  show "commit_skips [''/a.cpp'' \<mapsto> \<lparr>SV_Digest = [6], SV_HadErrors = True\<rparr>] ''/a.cpp'' [6] False"
    by (simp add: commit_skips_iff)
  show "\<not> commit_skips [''/a.cpp'' \<mapsto> \<lparr>SV_Digest = [6], SV_HadErrors = False\<rparr>] ''/a.cpp'' [6] False"
    by (simp add: commit_skips_iff)
qed

section \<open>Properties of \<^verbatim>\<open>index\<close> and its file filter\<close>

text \<open>
  C2, as stated, fails: the filter also skips a file that has no absolute path, although
  the condition the specification gives does not hold for it.
\<close>

theorem FileFilter_counterexample:
  "\<not> ((FileFilter (ShardVersions example_state) example_sm 2 = False)
        = spec_skips (ShardVersions example_state) example_sm 2)"
  by (simp add: FileFilter_def spec_skips_def example_sm_def)

text \<open>
  C2, amended. The file filter returns false exactly when the file id has no file entry,
  or the file has no absolute path, or its digest cannot be computed, or the snapshot holds
  the file's digest for its path without errors; in every other case it returns true.
\<close>

theorem FileFilter_skips:
  "(FileFilter Snapshot SM FID = False) =
     (getFileEntryForID SM FID = None \<or>
      (\<exists>F. getFileEntryForID SM FID = Some F \<and>
         (getCanonicalPath SM F = None \<or> digestFile SM FID = None \<or>
          (\<exists>AbsPath D SV.
             getCanonicalPath SM F = Some AbsPath \<and> digestFile SM FID = Some D \<and>
             Snapshot AbsPath = Some SV \<and> SV_Digest SV = D \<and> \<not> SV_HadErrors SV))))"
  by (auto simp: FileFilter_def split: option.splits)

theorem FileFilter_skips_witness:
  "FileFilter (ShardVersions example_state) example_sm 1 = False
   \<and> FileFilter (ShardVersions example_state) example_sm 0 = True
   \<and> FileFilter (ShardVersions example_state) example_sm 2 = False
   \<and> getCanonicalPath example_sm 2 = None"
proof -
  have "getCanonicalPath example_sm 2 = None" and "getFileEntryForID example_sm 2 = Some 2"
    by (simp_all add: example_sm_def)
  with FileFilter_skips [of "ShardVersions example_state" example_sm 2]
  have "FileFilter (ShardVersions example_state) example_sm 2 = False" by simp
  moreover have "FileFilter (ShardVersions example_state) example_sm 1 = False"
    by (simp add: FileFilter_def example_sm_def example_state_def)
  moreover have "FileFilter (ShardVersions example_state) example_sm 0 = True"
    by (simp add: FileFilter_def example_sm_def example_state_def)
  moreover have "getCanonicalPath example_sm 2 = None" by (simp add: example_sm_def)
  ultimately show ?thesis by blast
qed

















section \<open>Properties of \<^verbatim>\<open>loadShard\<close>\<close>

lemma visit_edge_InQueue:
  "InQueue (snd (visit_edge E p I acc)) =
     (case edge_path E p (fst I) of
        None \<Rightarrow> InQueue (snd acc)
      | Some q \<Rightarrow> insert q (InQueue (snd acc)))"
  by (auto simp: visit_edge_def Let_def split: option.splits)

lemma visit_edge_ToVisit:
  "ToVisit (snd (visit_edge E p I acc)) =
     (case edge_path E p (fst I) of
        None \<Rightarrow> ToVisit (snd acc)
      | Some q \<Rightarrow>
          if q \<in> InQueue (snd acc) then ToVisit (snd acc)
          else ToVisit (snd acc) @ [\<lparr>Path = q, NeedsReIndexing = True\<rparr>])"
  by (auto simp: visit_edge_def Let_def split: option.splits)

lemma visit_edge_LoadedShards:
  "LoadedShards (snd (visit_edge E p I acc)) = LoadedShards (snd acc)"
  by (auto simp: visit_edge_def Let_def split: option.splits)

lemma visit_edge_Dependencies:
  "Dependencies (snd (visit_edge E p I acc)) =
     (if edge_path E p (fst I) = Some p
      then (case getBufferForFile E p of
              None \<Rightarrow> Dependencies (snd acc)
            | Some Buf \<Rightarrow>
                back_NeedsReIndexing (digest E Buf \<noteq> IGN_Digest (snd I))
                  (Dependencies (snd acc)))
      else Dependencies (snd acc))"
  by (auto simp: visit_edge_def Let_def split: option.splits)

lemma visit_edge_measure:
  assumes "finite T" and "\<And>q. edge_path E p (fst I) = Some q \<Longrightarrow> q \<in> T"
  shows "card (T - InQueue (snd (visit_edge E p I acc)))
           + length (ToVisit (snd (visit_edge E p I acc)))
         = card (T - InQueue (snd acc)) + length (ToVisit (snd acc))"
proof (cases "edge_path E p (fst I)")
  case None
  then show ?thesis by (simp add: visit_edge_InQueue visit_edge_ToVisit)
next
  case (Some q)
  with assms have qT: "q \<in> T" by simp
  show ?thesis
  proof (cases "q \<in> InQueue (snd acc)")
    case True
    then show ?thesis using Some
      by (simp add: visit_edge_InQueue visit_edge_ToVisit insert_absorb)
  next
    case False
    have "T - insert q (InQueue (snd acc)) = (T - InQueue (snd acc)) - {q}" by auto
    moreover have "q \<in> T - InQueue (snd acc)" using qT False by simp
    ultimately have "Suc (card (T - insert q (InQueue (snd acc)))) = card (T - InQueue (snd acc))"
      using assms(1) by (metis card_Suc_Diff1 finite_Diff)
    then show ?thesis using Some False
      by (simp add: visit_edge_InQueue visit_edge_ToVisit)
  qed
qed

lemma fold_visit_edge_measure:
  assumes "finite T" and "\<forall>I \<in> set Srcs. \<forall>q. edge_path E p (fst I) = Some q \<longrightarrow> q \<in> T"
  shows "card (T - InQueue (snd (fold (visit_edge E p) Srcs acc)))
           + length (ToVisit (snd (fold (visit_edge E p) Srcs acc)))
         = card (T - InQueue (snd acc)) + length (ToVisit (snd acc))"
  using assms(2)
proof (induction Srcs arbitrary: acc)
  case Nil
  then show ?case by simp
next
  case (Cons I Srcs)
  have "card (T - InQueue (snd (fold (visit_edge E p) Srcs (visit_edge E p I acc))))
           + length (ToVisit (snd (fold (visit_edge E p) Srcs (visit_edge E p I acc))))
        = card (T - InQueue (snd (visit_edge E p I acc)))
           + length (ToVisit (snd (visit_edge E p I acc)))"
    using Cons.prems by (intro Cons.IH) simp
  also have "\<dots> = card (T - InQueue (snd acc)) + length (ToVisit (snd acc))"
    using Cons.prems by (intro visit_edge_measure [OF assms(1)]) simp
  finally show ?case by simp
qed

lemma edge_targets_member:
  assumes "map_of Storage p = Some Shard" and "In_Sources Shard = Some Srcs"
    and "I \<in> set Srcs" and "edge_path E p (fst I) = Some q"
  shows "q \<in> set (edge_targets E Storage)"
proof -
  from assms(1) have "(p, Shard) \<in> set Storage" by (rule map_of_SomeD)
  moreover have "q \<in> set (List.map_filter (\<lambda>I. edge_path E p (fst I)) Srcs)"
    using assms(3,4) by (force simp: List.map_filter_def)
  ultimately show ?thesis
    using assms(2) by (force simp: edge_targets_def)
qed

lemma loadShard_body_measure:
  assumes "ToVisit st \<noteq> []"
  shows "loadShard_measure E Storage (loadShard_body E Storage st)
         < loadShard_measure E Storage st"
proof -
  from assms obtain Front Rest where tv: "ToVisit st = Front # Rest"
    by (cases "ToVisit st") auto
  let ?T = "set (edge_targets E Storage)"
  show ?thesis
  proof (cases "Path Front \<in> LoadedShards st")
    case True
    then show ?thesis using tv
      by (simp add: loadShard_body_def loadShard_measure_def Let_def)
  next
    case False
    show ?thesis
    proof (cases "map_of Storage (Path Front)")
      case None
      then show ?thesis using tv False
        by (simp add: loadShard_body_def loadShard_measure_def Let_def
            IndexStorage_loadShard_def)
    next
      case (Some Shard)
      show ?thesis
      proof (cases "In_Sources Shard")
        case None
        then show ?thesis using tv False Some
          by (simp add: loadShard_body_def loadShard_measure_def Let_def
              IndexStorage_loadShard_def)
      next
        case (Some Srcs)
        have "\<forall>I \<in> set Srcs. \<forall>q. edge_path E (Path Front) (fst I) = Some q \<longrightarrow> q \<in> ?T"
          using edge_targets_member [OF \<open>map_of Storage (Path Front) = Some Shard\<close> Some]
          by blast
        then show ?thesis
          using tv False Some \<open>map_of Storage (Path Front) = Some Shard\<close>
          by (simp add: loadShard_body_def loadShard_measure_def Let_def
              IndexStorage_loadShard_def fold_visit_edge_measure)
      qed
    qed
  qed
qed

termination loadShard_loop
  by (relation "measure (\<lambda>(E, Storage, st). loadShard_measure E Storage st)")
    (simp_all add: loadShard_body_measure)

declare loadShard_loop.simps [simp del]

lemma map_Path_back: "map Path (back_NeedsReIndexing b Ds) = map Path Ds"
proof (cases "Ds = []")
  case True
  then show ?thesis by (simp add: back_NeedsReIndexing_def)
next
  case False
  have "map Path (butlast Ds @ [(last Ds)\<lparr>NeedsReIndexing := b\<rparr>]) = map Path (butlast Ds @ [last Ds])"
    by simp
  also have "\<dots> = map Path Ds"
    using False by (metis append_butlast_last_id)
  finally show ?thesis using False by (simp add: back_NeedsReIndexing_def)
qed

lemma length_back: "length (back_NeedsReIndexing b Ds) = length Ds"
  using map_Path_back [of b Ds] by (metis length_map)

lemma admitted_visit_edge:
  "admitted (snd (visit_edge E p I acc)) =
     (case edge_path E p (fst I) of
        None \<Rightarrow> admitted (snd acc)
      | Some q \<Rightarrow> if q \<in> InQueue (snd acc) then admitted (snd acc) else admitted (snd acc) @ [q])"
  by (simp add: admitted_def visit_edge_Dependencies visit_edge_ToVisit map_Path_back
      split: option.splits)

lemma queue_inv_visit_edge:
  assumes "queue_inv E Storage Main (snd acc)"
    and "\<forall>q. edge_path E p (fst I) = Some q \<longrightarrow> q \<in> set (edge_targets E Storage)"
  shows "queue_inv E Storage Main (snd (visit_edge E p I acc))"
  using assms
  by (auto simp: queue_inv_def admitted_visit_edge visit_edge_InQueue split: option.splits)

lemma queue_inv_fold_visit_edge:
  assumes "queue_inv E Storage Main (snd acc)"
    and "\<forall>I \<in> set Srcs. \<forall>q. edge_path E p (fst I) = Some q \<longrightarrow> q \<in> set (edge_targets E Storage)"
  shows "queue_inv E Storage Main (snd (fold (visit_edge E p) Srcs acc))"
  using assms
proof (induction Srcs arbitrary: acc)
  case Nil
  then show ?case by simp
next
  case (Cons I Srcs)
  have "queue_inv E Storage Main (snd (visit_edge E p I acc))"
    using Cons.prems by (intro queue_inv_visit_edge) simp_all
  then show ?case using Cons.prems by (simp add: Cons.IH)
qed

lemma queue_inv_body:
  assumes "queue_inv E Storage Main st"
  shows "queue_inv E Storage Main (loadShard_body E Storage st)"
proof (cases "ToVisit st")
  case Nil
  with assms show ?thesis by (simp add: loadShard_body_def)
next
  case (Cons Front Rest)
  let ?st1 = "st\<lparr>Dependencies := Dependencies st @ [Front], ToVisit := Rest\<rparr>"
  have inv1: "queue_inv E Storage Main ?st1"
    using assms Cons by (simp add: queue_inv_def admitted_def)
  show ?thesis
  proof (cases "Path Front \<in> LoadedShards st")
    case True
    have "queue_inv E Storage Main
            (?st1\<lparr>Dependencies := back_NeedsReIndexing False (Dependencies ?st1)\<rparr>)"
      using inv1 by (simp add: queue_inv_def admitted_def map_Path_back)
    with True Cons show ?thesis by (simp add: loadShard_body_def Let_def)
  next
    case False
    let ?st2 = "?st1\<lparr>LoadedShards := insert (Path Front) (LoadedShards ?st1)\<rparr>"
    have inv2: "queue_inv E Storage Main ?st2"
      using inv1 by (simp add: queue_inv_def admitted_def)
    show ?thesis
    proof (cases "map_of Storage (Path Front)")
      case None
      with False Cons inv2 show ?thesis
        by (simp add: loadShard_body_def Let_def IndexStorage_loadShard_def)
    next
      case (Some Shard)
      show ?thesis
      proof (cases "In_Sources Shard")
        case None
        with False Cons inv2 Some show ?thesis
          by (simp add: loadShard_body_def Let_def IndexStorage_loadShard_def)
      next
        case Srcs: (Some Srcs)
        have "\<forall>I \<in> set Srcs. \<forall>q. edge_path E (Path Front) (fst I) = Some q \<longrightarrow>
                q \<in> set (edge_targets E Storage)"
          using edge_targets_member [OF Some Srcs] by blast
        then have "queue_inv E Storage Main
            (snd (fold (visit_edge E (Path Front)) Srcs (Some Shard, ?st2)))"
          using inv2 by (intro queue_inv_fold_visit_edge) simp_all
        with False Cons Some Srcs show ?thesis
          by (simp add: loadShard_body_def Let_def IndexStorage_loadShard_def)
      qed
    qed
  qed
qed

lemma loadShard_loop_invariant:
  assumes "\<And>s. P s \<Longrightarrow> P (loadShard_body E Storage s)" and "P st"
  shows "P (loadShard_loop E Storage st)"
  using assms
proof (induction E Storage st rule: loadShard_loop.induct)
  case (1 E Storage st)
  show ?case
  proof (cases "ToVisit st = []")
    case True
    with "1.prems" show ?thesis by (simp add: loadShard_loop.simps)
  next
    case False
    have "P (loadShard_body E Storage st)" using "1.prems"(2) by (rule "1.prems"(1))
    with "1.IH" [OF False "1.prems"(1)] False show ?thesis
      by (simp add: loadShard_loop.simps)
  qed
qed

lemma loadShard_loop_done: "ToVisit (loadShard_loop E Storage st) = []"
proof (induction E Storage st rule: loadShard_loop.induct)
  case (1 E Storage st)
  then show ?case by (cases "ToVisit st = []") (simp_all add: loadShard_loop.simps)
qed

lemma queue_inv_init: "queue_inv E Storage Main (loadShard_init Main Loaded)"
  by (simp add: queue_inv_def admitted_def loadShard_init_def)

lemma queue_inv_loop:
  "queue_inv E Storage Main (loadShard_loop E Storage (loadShard_init Main Loaded))"
  by (rule loadShard_loop_invariant [OF queue_inv_body queue_inv_init])

lemma loop_dependencies:
  fixes E Storage Main Loaded
  defines "W \<equiv> loadShard_loop E Storage (loadShard_init Main Loaded)"
  shows "distinct (map Path (Dependencies W))"
    and "\<exists>rest. map Path (Dependencies W) = Main # rest"
    and "length (Dependencies W) \<le> Suc (length (edge_targets E Storage))"
proof -
  have inv: "queue_inv E Storage Main W" unfolding W_def by (rule queue_inv_loop)
  have fin: "ToVisit W = []" unfolding W_def by (rule loadShard_loop_done)
  from inv fin show d: "distinct (map Path (Dependencies W))"
    by (simp add: queue_inv_def admitted_def)
  from inv fin show "\<exists>rest. map Path (Dependencies W) = Main # rest"
    by (simp add: queue_inv_def admitted_def)
  from inv fin have "set (map Path (Dependencies W)) \<subseteq> insert Main (set (edge_targets E Storage))"
    by (auto simp: queue_inv_def admitted_def)
  then have "card (set (map Path (Dependencies W))) \<le> card (insert Main (set (edge_targets E Storage)))"
    by (intro card_mono) simp_all
  also have "\<dots> \<le> Suc (card (set (edge_targets E Storage)))"
    by (simp add: card_insert_if)
  also have "\<dots> \<le> Suc (length (edge_targets E Storage))"
    by (simp add: card_length)
  finally have "card (set (map Path (Dependencies W))) \<le> Suc (length (edge_targets E Storage))" .
  moreover have "card (set (map Path (Dependencies W))) = length (Dependencies W)"
    using distinct_card [OF d] by simp
  ultimately show "length (Dependencies W) \<le> Suc (length (edge_targets E Storage))"
    by simp
qed

lemma length_Dependencies_visit_edge:
  "length (Dependencies (snd (visit_edge E p I acc))) = length (Dependencies (snd acc))"
  by (simp add: visit_edge_Dependencies length_back split: option.splits)

lemma length_Dependencies_fold:
  "length (Dependencies (snd (fold (visit_edge E p) Srcs acc))) = length (Dependencies (snd acc))"
  by (induction Srcs arbitrary: acc) (simp_all add: length_Dependencies_visit_edge)

lemma length_Dependencies_body:
  assumes "ToVisit st \<noteq> []"
  shows "length (Dependencies (loadShard_body E Storage st)) = Suc (length (Dependencies st))"
proof -
  from assms obtain Front Rest where "ToVisit st = Front # Rest"
    by (cases "ToVisit st") auto
  then show ?thesis
    by (simp add: loadShard_body_def Let_def length_back length_Dependencies_fold
        split: option.splits)
qed

lemma loop_iterations:
  "(loadShard_body E Storage ^^
      (length (Dependencies (loadShard_loop E Storage st)) - length (Dependencies st))) st
     = loadShard_loop E Storage st
   \<and> length (Dependencies st) \<le> length (Dependencies (loadShard_loop E Storage st))"
proof (induction E Storage st rule: loadShard_loop.induct)
  case (1 E Storage st)
  show ?case
  proof (cases "ToVisit st = []")
    case True
    then show ?thesis by (simp add: loadShard_loop.simps)
  next
    case False
    let ?b = "loadShard_body E Storage st"
    let ?W = "loadShard_loop E Storage st"
    have W: "?W = loadShard_loop E Storage ?b"
      using False by (simp add: loadShard_loop.simps)
    have len: "length (Dependencies ?b) = Suc (length (Dependencies st))"
      using False by (rule length_Dependencies_body)
    from "1.IH" [OF False] W
    have run: "(loadShard_body E Storage ^^ (length (Dependencies ?W) - length (Dependencies ?b))) ?b = ?W"
      and le: "length (Dependencies ?b) \<le> length (Dependencies ?W)"
      by simp_all
    from le len have "length (Dependencies ?W) - length (Dependencies st)
        = Suc (length (Dependencies ?W) - length (Dependencies ?b))"
      by simp
    then have "(loadShard_body E Storage ^^ (length (Dependencies ?W) - length (Dependencies st))) st
        = (loadShard_body E Storage ^^ (length (Dependencies ?W) - length (Dependencies ?b))) ?b"
      by (simp add: funpow_swap1)
    with run le len show ?thesis by simp
  qed
qed

lemma loop_while:
  "while_option (\<lambda>s. ToVisit s \<noteq> []) (loadShard_body E Storage) st
     = Some (loadShard_loop E Storage st)"
proof (induction E Storage st rule: loadShard_loop.induct)
  case (1 E Storage st)
  show ?case
  proof (cases "ToVisit st = []")
    case True
    then show ?thesis
      by (subst while_option_unfold) (simp add: loadShard_loop.simps)
  next
    case False
    with "1.IH" show ?thesis
      by (subst while_option_unfold) (simp add: loadShard_loop.simps)
  qed
qed



lemma back_snoc: "back_NeedsReIndexing b (Ds @ [Cur]) = Ds @ [Cur\<lparr>NeedsReIndexing := b\<rparr>]"
  by (simp add: back_NeedsReIndexing_def)

lemma Dependencies_fold_visit_edge:
  assumes "Dependencies (snd acc) = Ds @ [Cur]"
  shows "Dependencies (snd (fold (visit_edge E p) Srcs acc)) =
           Ds @ [Cur\<lparr>NeedsReIndexing := needs_after E p Srcs (NeedsReIndexing Cur)\<rparr>]"
  using assms
proof (induction Srcs arbitrary: acc Cur)
  case Nil
  then show ?case by simp
next
  case (Cons I Srcs)
  let ?b = "if edge_path E p (fst I) = Some p
        then (case getBufferForFile E p of
                None \<Rightarrow> NeedsReIndexing Cur
              | Some Buf \<Rightarrow> digest E Buf \<noteq> IGN_Digest (snd I))
        else NeedsReIndexing Cur"
  have "Dependencies (snd (visit_edge E p I acc)) = Ds @ [Cur\<lparr>NeedsReIndexing := ?b\<rparr>]"
    using Cons.prems by (simp add: visit_edge_Dependencies back_snoc split: option.splits)
  from Cons.IH [OF this] show ?case by simp
qed

lemma needs_after_eq:
  "needs_after E p Srcs b =
     (case getBufferForFile E p of
        None \<Rightarrow> b
      | Some Buf \<Rightarrow>
          if self_nodes E p Srcs = [] then b
          else digest E Buf \<noteq> IGN_Digest (snd (last (self_nodes E p Srcs))))"
  by (induction Srcs arbitrary: b) (auto simp: self_nodes_def split: option.splits)

lemma ToVisit_fold_needs:
  assumes "\<forall>D \<in> set (ToVisit (snd acc)). NeedsReIndexing D"
  shows "\<forall>D \<in> set (ToVisit (snd (fold (visit_edge E p) Srcs acc))). NeedsReIndexing D"
  using assms
proof (induction Srcs arbitrary: acc)
  case Nil
  then show ?case by simp
next
  case (Cons I Srcs)
  have "\<forall>D \<in> set (ToVisit (snd (visit_edge E p I acc))). NeedsReIndexing D"
    using Cons.prems by (auto simp: visit_edge_ToVisit split: option.splits)
  from Cons.IH [OF this] show ?case by simp
qed

lemma LoadedShards_fold:
  "LoadedShards (snd (fold (visit_edge E p) Srcs acc)) = LoadedShards (snd acc)"
  by (induction Srcs arbitrary: acc) (simp_all add: visit_edge_LoadedShards)

lemma needs_inv_body:
  assumes q: "queue_inv E Storage Main st" and n: "needs_inv E Storage Loaded st"
  shows "needs_inv E Storage Loaded (loadShard_body E Storage st)"
proof (cases "ToVisit st")
  case Nil
  with n show ?thesis by (simp add: loadShard_body_def)
next
  case (Cons Front Rest)
  let ?p = "Path Front"
  from q Cons have fresh: "?p \<notin> Path ` set (Dependencies st)"
    by (auto simp: queue_inv_def admitted_def)
  from n Cons have front: "NeedsReIndexing Front"
    by (simp add: needs_inv_def)
  from n have loaded: "LoadedShards st = Loaded \<union> Path ` set (Dependencies st)"
    by (simp add: needs_inv_def)
  from n Cons have rest: "\<forall>D \<in> set Rest. NeedsReIndexing D"
    by (simp add: needs_inv_def)
  from n have deps: "\<forall>D \<in> set (Dependencies st).
         NeedsReIndexing D = (\<not> (Path D \<in> Loaded \<or> cache_hit E Storage (Path D)))"
    by (simp add: needs_inv_def)
  let ?st1 = "st\<lparr>Dependencies := Dependencies st @ [Front], ToVisit := Rest\<rparr>"
  show ?thesis
  proof (cases "?p \<in> LoadedShards st")
    case True
    with loaded fresh have "?p \<in> Loaded" by simp
    then have "needs_inv E Storage Loaded
        (?st1\<lparr>Dependencies := back_NeedsReIndexing False (Dependencies ?st1)\<rparr>)"
      using loaded rest deps by (auto simp: needs_inv_def back_snoc)
    with True Cons show ?thesis by (simp add: loadShard_body_def Let_def)
  next
    case False
    with loaded have notin: "?p \<notin> Loaded" by simp
    let ?st2 = "?st1\<lparr>LoadedShards := insert ?p (LoadedShards ?st1)\<rparr>"
    have final: "needs_inv E Storage Loaded st'"
      if "LoadedShards st' = insert ?p (LoadedShards st)"
        and "\<forall>D \<in> set (ToVisit st'). NeedsReIndexing D"
        and "Dependencies st' = Dependencies st @ [Front\<lparr>NeedsReIndexing := b\<rparr>]"
        and "b = (\<not> cache_hit E Storage ?p)" for st' b
      using that loaded deps notin by (auto simp: needs_inv_def)
    show ?thesis
    proof (cases "map_of Storage ?p")
      case None
      then have "\<not> cache_hit E Storage ?p"
        by (simp add: cache_hit_def IndexStorage_loadShard_def)
      then have "needs_inv E Storage Loaded ?st2"
        using front rest by (intro final [where b = True]) simp_all
      with None False Cons show ?thesis
        by (simp add: loadShard_body_def Let_def IndexStorage_loadShard_def)
    next
      case (Some Shard)
      show ?thesis
      proof (cases "In_Sources Shard")
        case None
        then have "\<not> cache_hit E Storage ?p"
          using Some by (simp add: cache_hit_def IndexStorage_loadShard_def)
        then have "needs_inv E Storage Loaded ?st2"
          using front rest by (intro final [where b = True]) simp_all
        with None Some False Cons show ?thesis
          by (simp add: loadShard_body_def Let_def IndexStorage_loadShard_def)
      next
        case Srcs: (Some Srcs)
        let ?f = "snd (fold (visit_edge E ?p) Srcs (Some Shard, ?st2))"
        have hit: "needs_after E ?p Srcs True = (\<not> cache_hit E Storage ?p)"
          using Some Srcs
          by (auto simp: needs_after_eq cache_hit_def IndexStorage_loadShard_def
              split: option.splits)
        have "Dependencies ?f = Dependencies st @
            [Front\<lparr>NeedsReIndexing := needs_after E ?p Srcs (NeedsReIndexing Front)\<rparr>]"
          by (rule Dependencies_fold_visit_edge) simp
        then have "Dependencies ?f = Dependencies st @
            [Front\<lparr>NeedsReIndexing := needs_after E ?p Srcs True\<rparr>]"
          using front by simp
        moreover have "\<forall>D \<in> set (ToVisit ?f). NeedsReIndexing D"
          using rest by (intro ToVisit_fold_needs) simp
        moreover have "LoadedShards ?f = insert ?p (LoadedShards st)"
          by (simp add: LoadedShards_fold)
        ultimately have "needs_inv E Storage Loaded ?f"
          using hit by (intro final [where b = "needs_after E ?p Srcs True"]) simp_all
        with Srcs Some False Cons show ?thesis
          by (simp add: loadShard_body_def Let_def IndexStorage_loadShard_def)
      qed
    qed
  qed
qed

lemma walk_inv_loop:
  "queue_inv E Storage Main (loadShard_loop E Storage (loadShard_init Main Loaded)) \<and>
   needs_inv E Storage Loaded (loadShard_loop E Storage (loadShard_init Main Loaded))"
proof (rule loadShard_loop_invariant)
  show "queue_inv E Storage Main (loadShard_init Main Loaded) \<and>
        needs_inv E Storage Loaded (loadShard_init Main Loaded)"
    by (simp add: queue_inv_init) (simp add: needs_inv_def loadShard_init_def)
next
  fix s
  assume "queue_inv E Storage Main s \<and> needs_inv E Storage Loaded s"
  then show "queue_inv E Storage Main (loadShard_body E Storage s) \<and>
        needs_inv E Storage Loaded (loadShard_body E Storage s)"
    using queue_inv_body [of E Storage Main s] needs_inv_body [of E Storage Main s Loaded]
    by blast
qed

lemma install_shards_dom:
  assumes "install_shards SIs st = Inr st'"
  shows "dom (ShardVersions st) \<subseteq> dom (ShardVersions st')"
  using assms
proof (induction SIs arbitrary: st)
  case Nil
  then show ?case by simp
next
  case (Cons SI SIs)
  from Cons.prems obtain st1 where one: "install_shard SI st = Inr st1"
    and more: "install_shards SIs st1 = Inr st'"
    by (auto split: sum.splits)
  from one have "dom (ShardVersions st) \<subseteq> dom (ShardVersions st1)"
    by (auto simp: install_shard_def split: option.splits)
  with Cons.IH [OF more] show ?case by blast
qed

lemma loadShard_Inr:
  assumes "loadShard E C Storage Loaded st = Inr (Deps, Loaded', st')"
  shows "Deps = Dependencies (loadShard_loop E Storage (loadShard_init (getAbsolutePath E C) Loaded))"
    and "Loaded' = LoadedShards (loadShard_loop E Storage (loadShard_init (getAbsolutePath E C) Loaded))"
    and "install_shards
           (IntermediateSymbols
              (loadShard_loop E Storage (loadShard_init (getAbsolutePath E C) Loaded))) st
         = Inr st'"
  using assms by (auto simp: loadShard_def Let_def split: sum.splits)

text \<open>
  C10. The list \<^verbatim>\<open>loadShard\<close> returns holds no path twice, and its first element is the
  absolute path of the main file of the command, which entered the queue marked as needing
  re-indexing.
\<close>

theorem loadShard_dependencies:
  assumes "loadShard E C Storage Loaded st = Inr (Deps, Loaded', st')"
  shows "distinct (map Path Deps) \<and> Deps \<noteq> [] \<and> Path (hd Deps) = getAbsolutePath E C \<and>
         ToVisit (loadShard_init (getAbsolutePath E C) Loaded) =
           [\<lparr>Path = getAbsolutePath E C, NeedsReIndexing = True\<rparr>]"
proof -
  let ?W = "loadShard_loop E Storage (loadShard_init (getAbsolutePath E C) Loaded)"
  have Deps: "Deps = Dependencies ?W" using assms by (rule loadShard_Inr)
  have d: "distinct (map Path (Dependencies ?W))" by (rule loop_dependencies)
  from loop_dependencies(2) [of E Storage "getAbsolutePath E C" Loaded]
  obtain rest where r: "map Path (Dependencies ?W) = getAbsolutePath E C # rest"
    by (elim exE)
  then have ne: "Dependencies ?W \<noteq> []" by auto
  with r have "Path (hd (Dependencies ?W)) = getAbsolutePath E C"
    by (cases "Dependencies ?W") auto
  with d ne show ?thesis
    using Deps by (simp add: loadShard_init_def)
qed

theorem loadShard_dependencies_witness:
  "\<exists>Deps Loaded' st'.
     loadShard example_env example_cmd example_store {} empty_state = Inr (Deps, Loaded', st') \<and>
     distinct (map Path Deps) \<and> Deps \<noteq> [] \<and>
     Path (hd Deps) = getAbsolutePath example_env example_cmd"
proof -
  have "\<not> isl (loadShard example_env example_cmd example_store {} empty_state)"
    by code_simp
  then obtain Deps Loaded' st'
    where r: "loadShard example_env example_cmd example_store {} empty_state
                = Inr (Deps, Loaded', st')"
    by (cases "loadShard example_env example_cmd example_store {} empty_state") auto
  from loadShard_dependencies [OF r] r show ?thesis by blast
qed

text \<open>
  C9. From the state in which \<^verbatim>\<open>loadShard\<close> enters it, the loop
  \<^verbatim>\<open>while (!ToVisit.empty())\<close> terminates for every finite store, whatever the shape
  of the stored include graphs: run as a loop that might not return, it returns; its body
  runs once for each dependency in the result; no path is among the dependencies twice; and
  the number of dependencies is at most one more than the number of edges in the store.
\<close>

theorem loadShard_terminates:
  "while_option (\<lambda>s. ToVisit s \<noteq> []) (loadShard_body E Storage)
       (loadShard_init (getAbsolutePath E C) Loaded)
     = Some (loadShard_loop E Storage (loadShard_init (getAbsolutePath E C) Loaded))
   \<and> (loadShard_body E Storage ^^
        length (Dependencies
                  (loadShard_loop E Storage (loadShard_init (getAbsolutePath E C) Loaded))))
       (loadShard_init (getAbsolutePath E C) Loaded)
     = loadShard_loop E Storage (loadShard_init (getAbsolutePath E C) Loaded)
   \<and> ToVisit (loadShard_loop E Storage (loadShard_init (getAbsolutePath E C) Loaded)) = []
   \<and> distinct (map Path (Dependencies
        (loadShard_loop E Storage (loadShard_init (getAbsolutePath E C) Loaded))))
   \<and> length (Dependencies
        (loadShard_loop E Storage (loadShard_init (getAbsolutePath E C) Loaded)))
       \<le> Suc (length (edge_targets E Storage))"
proof (intro conjI)
  let ?init = "loadShard_init (getAbsolutePath E C) Loaded"
  show "while_option (\<lambda>s. ToVisit s \<noteq> []) (loadShard_body E Storage) ?init
      = Some (loadShard_loop E Storage ?init)"
    by (rule loop_while)
  have "Dependencies ?init = []" by (simp add: loadShard_init_def)
  with loop_iterations [of E Storage ?init]
  show "(loadShard_body E Storage ^^ length (Dependencies (loadShard_loop E Storage ?init))) ?init
      = loadShard_loop E Storage ?init"
    by simp
  show "ToVisit (loadShard_loop E Storage ?init) = []"
    by (rule loadShard_loop_done)
  show "distinct (map Path (Dependencies (loadShard_loop E Storage ?init)))"
    by (rule loop_dependencies)
  show "length (Dependencies (loadShard_loop E Storage ?init))
      \<le> Suc (length (edge_targets E Storage))"
    by (rule loop_dependencies)
qed

theorem loadShard_terminates_witness:
  "while_option (\<lambda>s. ToVisit s \<noteq> []) (loadShard_body example_env example_store)
       (loadShard_init (getAbsolutePath example_env example_cmd) {})
     = Some (loadShard_loop example_env example_store
               (loadShard_init (getAbsolutePath example_env example_cmd) {}))
   \<and> map Path (Dependencies (loadShard_loop example_env example_store
               (loadShard_init (getAbsolutePath example_env example_cmd) {})))
     = [''/a.cpp'', ''/h.h'']
   \<and> length (edge_targets example_env example_store) = 4"
proof -
  have "map Path (Dependencies (loadShard_loop example_env example_store
               (loadShard_init (getAbsolutePath example_env example_cmd) {})))
     = [''/a.cpp'', ''/h.h'']"
    by code_simp
  moreover have "length (edge_targets example_env example_store) = 4"
    by code_simp
  ultimately show ?thesis
    using loadShard_terminates [of example_env example_store example_cmd "{}"] by simp
qed

text \<open>
  C6. A dependency in the result of \<^verbatim>\<open>loadShard\<close> does not need re-indexing exactly
  when its path was in \<^verbatim>\<open>LoadedShards\<close> on entry, or its shard loads with an include
  graph that has a node for the path itself whose digest (that of the last such node, if
  there are several) is the digest of the file as it can be read now. If the path was not
  loaded before and the shard does not load, has no include graph, or the file cannot be
  read, the dependency needs re-indexing.
\<close>

theorem loadShard_needs_reindexing:
  assumes "loadShard E C Storage Loaded st = Inr (Deps, Loaded', st')" and "D \<in> set Deps"
  shows "(NeedsReIndexing D = False) =
           (Path D \<in> Loaded \<or>
            (\<exists>Shard Srcs Buf.
               IndexStorage_loadShard Storage (Path D) = Some Shard \<and>
               In_Sources Shard = Some Srcs \<and>
               getBufferForFile E (Path D) = Some Buf \<and>
               self_nodes E (Path D) Srcs \<noteq> [] \<and>
               digest E Buf = IGN_Digest (snd (last (self_nodes E (Path D) Srcs)))))
         \<and> (Path D \<notin> Loaded \<and>
              (IndexStorage_loadShard Storage (Path D) = None \<or>
               (\<exists>Shard. IndexStorage_loadShard Storage (Path D) = Some Shard \<and>
                  In_Sources Shard = None) \<or>
               getBufferForFile E (Path D) = None)
             \<longrightarrow> NeedsReIndexing D)"
proof -
  let ?W = "loadShard_loop E Storage (loadShard_init (getAbsolutePath E C) Loaded)"
  have "Deps = Dependencies ?W" using assms(1) by (rule loadShard_Inr)
  moreover have "needs_inv E Storage Loaded ?W"
    using walk_inv_loop [of E Storage "getAbsolutePath E C" Loaded] by simp
  ultimately have main: "NeedsReIndexing D =
      (\<not> (Path D \<in> Loaded \<or> cache_hit E Storage (Path D)))"
    using assms(2) by (simp add: needs_inv_def)
  then have first: "(NeedsReIndexing D = False) =
      (Path D \<in> Loaded \<or> cache_hit E Storage (Path D))"
    by simp
  have second: "NeedsReIndexing D"
    if "Path D \<notin> Loaded" and
      "IndexStorage_loadShard Storage (Path D) = None \<or>
       (\<exists>Shard. IndexStorage_loadShard Storage (Path D) = Some Shard \<and> In_Sources Shard = None) \<or>
       getBufferForFile E (Path D) = None"
  proof -
    from that(2) have "\<not> cache_hit E Storage (Path D)"
      by (auto simp: cache_hit_def)
    with main that(1) show ?thesis by simp
  qed
  from first second show ?thesis
    unfolding cache_hit_def by blast
qed

theorem loadShard_needs_reindexing_witness:
  "\<exists>Deps Loaded' st'.
     loadShard example_env example_cmd example_store {} empty_state = Inr (Deps, Loaded', st') \<and>
     \<lparr>Path = ''/h.h'', NeedsReIndexing = True\<rparr> \<in> set Deps \<and>
     \<lparr>Path = ''/a.cpp'', NeedsReIndexing = False\<rparr> \<in> set Deps \<and>
     (\<exists>Shard Srcs Buf.
        IndexStorage_loadShard example_store ''/a.cpp'' = Some Shard \<and>
        In_Sources Shard = Some Srcs \<and>
        getBufferForFile example_env ''/a.cpp'' = Some Buf \<and>
        self_nodes example_env ''/a.cpp'' Srcs \<noteq> [] \<and>
        digest example_env Buf = IGN_Digest (snd (last (self_nodes example_env ''/a.cpp'' Srcs))))"
proof -
  have "\<not> isl (loadShard example_env example_cmd example_store {} empty_state)"
    by code_simp
  then obtain Deps Loaded' st'
    where r: "loadShard example_env example_cmd example_store {} empty_state
                = Inr (Deps, Loaded', st')"
    by (cases "loadShard example_env example_cmd example_store {} empty_state") auto
  have "(case loadShard example_env example_cmd example_store {} empty_state of
           Inl e \<Rightarrow> [] | Inr R \<Rightarrow> fst R) =
        [\<lparr>Path = ''/a.cpp'', NeedsReIndexing = False\<rparr>,
         \<lparr>Path = ''/h.h'', NeedsReIndexing = True\<rparr>]"
    by code_simp
  with r have mem: "\<lparr>Path = ''/a.cpp'', NeedsReIndexing = False\<rparr> \<in> set Deps"
    and mem2: "\<lparr>Path = ''/h.h'', NeedsReIndexing = True\<rparr> \<in> set Deps"
    by simp_all
  from loadShard_needs_reindexing [OF r mem] r mem mem2 show ?thesis
    by auto
qed

section \<open>The shard-version table only grows\<close>

lemma dom_index:
  assumes "index E Parser C S st = Inr (st', eff)"
  shows "dom (ShardVersions st) \<subseteq> dom (ShardVersions st')"
proof -
  from assms obtain Index Snap HE where
    "ShardVersions st' = ShardVersions (fst (update E (getAbsolutePath E C) Index Snap S HE st))"
    by (auto simp: index_def Let_def split: option.splits Frontend.splits if_splits)
  then show ?thesis by (simp add: dom_update)
qed

text \<open>
  C8. An \<^verbatim>\<open>update\<close>, an \<^verbatim>\<open>index\<close> that returns and a \<^verbatim>\<open>loadShard\<close> that returns
  leave in the shard-version table every path that was in it before.
\<close>

theorem ShardVersions_never_removed:
  "dom (ShardVersions st) \<subseteq>
     dom (ShardVersions (fst (update E MainFile Index Snapshot IndexStorage HadErrors st)))
   \<and> (index E Parser C IndexStorage st = Inr (st1, eff) \<longrightarrow>
        dom (ShardVersions st) \<subseteq> dom (ShardVersions st1))
   \<and> (loadShard E C Storage Loaded st = Inr (Deps, Loaded', st2) \<longrightarrow>
        dom (ShardVersions st) \<subseteq> dom (ShardVersions st2))"
proof (intro conjI impI)
  show "dom (ShardVersions st) \<subseteq>
     dom (ShardVersions (fst (update E MainFile Index Snapshot IndexStorage HadErrors st)))"
    by (rule dom_update)
  show "dom (ShardVersions st) \<subseteq> dom (ShardVersions st1)"
    if "index E Parser C IndexStorage st = Inr (st1, eff)"
    using that by (rule dom_index)
  show "dom (ShardVersions st) \<subseteq> dom (ShardVersions st2)"
    if "loadShard E C Storage Loaded st = Inr (Deps, Loaded', st2)"
    using loadShard_Inr(3) [OF that] by (rule install_shards_dom)
qed

theorem ShardVersions_never_removed_witness:
  "dom (ShardVersions broken_state) \<subseteq>
     dom (ShardVersions (fst (update example_env ''/a.cpp'' example_tu Map.empty None False
                                broken_state)))
   \<and> (\<exists>Deps Loaded' st2.
        loadShard example_env example_cmd example_store {} broken_state
          = Inr (Deps, Loaded', st2) \<and>
        dom (ShardVersions broken_state) \<subseteq> dom (ShardVersions st2))"
proof -
  have "\<not> isl (loadShard example_env example_cmd example_store {} broken_state)"
    by code_simp
  then obtain Deps Loaded' st2
    where r: "loadShard example_env example_cmd example_store {} broken_state
                = Inr (Deps, Loaded', st2)"
    by (cases "loadShard example_env example_cmd example_store {} broken_state") auto
  from ShardVersions_never_removed [where st = broken_state and E = example_env
      and MainFile = "''/a.cpp''" and Index = example_tu and Snapshot = Map.empty
      and IndexStorage = None and HadErrors = False and C = example_cmd
      and Storage = example_store and Loaded = "{}" and Deps = Deps and Loaded' = Loaded'
      and ?st2.0 = st2]
    r
  show ?thesis by blast
qed

end
